theory Spec2Isabelle
  imports Main "HOL-Library.Word" "HOL-Library.Monad_Syntax"
begin

unbundle bit_operations_syntax

section \<open>Machine types\<close>

text \<open>
  Go's \<open>byte\<close>/\<open>uint8\<close> is an 8-bit word, \<open>uint32\<close>/\<open>int32\<close>/\<open>rune\<close> a 32-bit word
  and \<open>uint\<close>/\<open>int\<close>/\<open>uint64\<close> a 64-bit word (the 64-bit targets of the package's CI).
  Arithmetic wraps around; \<open>>>\<close> on an unsigned value is \<open>drop_bit\<close>, on a signed value
  \<open>signed_drop_bit\<close>; \<open><<\<close> is \<open>push_bit\<close>. Slice lengths and loop counters that only
  count are natural numbers.
\<close>

type_synonym byte = "8 word"
type_synonym uint32 = "32 word"
type_synonym rune = "32 word"
type_synonym uint = "64 word"
type_synonym gint = "64 word"
type_synonym uint64 = "64 word"

section \<open>Constant-time primitives\<close>

text \<open>
  The package forwards to Go's \<open>crypto/subtle\<close>. The bodies below are those of the
  standard library:
  \<^verbatim>\<open>ConstantTimeByteEq(x, y uint8) int    = int((uint32(x^y) - 1) >> 31)\<close>,
  \<^verbatim>\<open>ConstantTimeSelect(v, x, y int) int    = ^(v-1)&x | (v-1)&y\<close>,
  \<^verbatim>\<open>ConstantTimeLessOrEq(x, y int) int    = int(((int32(x) - int32(y) - 1) >> 31) & 1)\<close>.
\<close>

definition ConstantTimeByteEq :: "byte \<Rightarrow> byte \<Rightarrow> gint" where
  "ConstantTimeByteEq x y = ucast (drop_bit 31 ((ucast (x XOR y) :: uint32) - 1))"

definition ConstantTimeSelect :: "gint \<Rightarrow> gint \<Rightarrow> gint \<Rightarrow> gint" where
  "ConstantTimeSelect v x y = (NOT (v - 1) AND x) OR ((v - 1) AND y)"

definition ConstantTimeLessOrEq :: "gint \<Rightarrow> gint \<Rightarrow> gint" where
  "ConstantTimeLessOrEq x y =
     (let x32 = (ucast x :: uint32);
          y32 = (ucast y :: uint32)
      in scast (signed_drop_bit 31 (x32 - y32 - 1) AND 1))"

definition ConstantTimeByteLessOrEq :: "byte \<Rightarrow> byte \<Rightarrow> gint" where
  "ConstantTimeByteLessOrEq x y = ConstantTimeLessOrEq (ucast x) (ucast y)"

definition ConstantTimeByteGreater :: "byte \<Rightarrow> byte \<Rightarrow> gint" where
  "ConstantTimeByteGreater x y = ConstantTimeByteLessOrEq x y XOR 1"

text \<open>
  The loop of \<open>ConstantTimeBigEndianLessOrEq\<close>: \<open>x[i]\<close> and \<open>y[i]\<close> for
  \<open>i = 0, ..., len(x) - 1\<close>, the two flags \<open>neq\<close> and \<open>gt\<close> threaded through. The
  new \<open>gt\<close> is used in the update of \<open>neq\<close>, as in the source.
\<close>

fun BigEndianLessOrEq_loop :: "byte list \<Rightarrow> byte list \<Rightarrow> gint \<Rightarrow> gint \<Rightarrow> gint" where
  "BigEndianLessOrEq_loop (a # x) (b # y) neq gt =
     (let gt' = gt OR ConstantTimeSelect neq 0 (ConstantTimeByteGreater a b);
          neq' = neq OR ConstantTimeSelect gt' 0 (ConstantTimeByteEq a b XOR 1)
      in BigEndianLessOrEq_loop x y neq' gt')"
| "BigEndianLessOrEq_loop _ _ neq gt = gt"

text \<open>\<open>None\<close> is the panic "subtle: slices have different lengths".\<close>

definition ConstantTimeBigEndianLessOrEq :: "byte list \<Rightarrow> byte list \<Rightarrow> gint option" where
  "ConstantTimeBigEndianLessOrEq x y =
     (if length x \<noteq> length y then None
      else Some (BigEndianLessOrEq_loop x y 0 0 XOR 1))"

text \<open>The value of a byte string read as a big-endian unsigned integer.\<close>

definition be_value :: "byte list \<Rightarrow> nat" where
  "be_value xs = foldl (\<lambda>a b. a * 256 + unat b) 0 xs"

section \<open>Hex codec\<close>

text \<open>
  \<open>validHexChar\<close> of \<open>hex/constant_time.go\<close>, and the set of hexadecimal digits
  \<open>0-9A-Fa-f\<close> it is compared with.
\<close>

definition validHexChar :: "byte \<Rightarrow> bool" where
  "validHexChar c =
     (let num = (ucast c :: uint) XOR 0x30;
          num0 = drop_bit 8 (num - 10);
          alpha = ((ucast c :: uint) AND NOT 32) - 55;
          alpha0 = drop_bit 8 ((alpha - 10) XOR (alpha - 16))
      in ConstantTimeByteEq (ucast (num0 OR alpha0)) 0 = 0)"

definition is_hex_digit :: "byte \<Rightarrow> bool" where
  "is_hex_digit c =
     ((0x30 \<le> c \<and> c \<le> 0x39) \<or> (0x41 \<le> c \<and> c \<le> 0x46) \<or> (0x61 \<le> c \<and> c \<le> 0x66))"

text \<open>
  \<open>Encode(dst, src)\<close>: \<open>dst\<close> is the destination buffer, returned updated; \<open>j\<close> is
  the write index. Go writes \<open>dst[j+1]\<close> first, so the call panics (\<open>None\<close>) as soon as
  \<open>j + 1\<close> is out of range, before \<open>dst[j]\<close> is touched. The result is the buffer and
  the returned count \<open>len(src) * 2\<close>.
\<close>

fun hex_Encode_loop :: "byte list \<Rightarrow> nat \<Rightarrow> byte list \<Rightarrow> byte list option" where
  "hex_Encode_loop dst j [] = Some dst"
| "hex_Encode_loop dst j (v # src) =
     (let b = (ucast (drop_bit 4 v) :: uint);
          c = (ucast (v AND 0x0f) :: uint);
          mask = NOT (38 :: uint)
      in if j + 1 < length dst
         then hex_Encode_loop
                (dst[j + 1 := ucast (87 + c + (drop_bit 8 (c - 10) AND mask)),
                     j := ucast (87 + b + (drop_bit 8 (b - 10) AND mask))])
                (j + 2) src
         else None)"

definition hex_Encode :: "byte list \<Rightarrow> byte list \<Rightarrow> (byte list \<times> nat) option" where
  "hex_Encode dst src = map_option (\<lambda>d. (d, length src * 2)) (hex_Encode_loop dst 0 src)"

definition hex_EncodedLen :: "nat \<Rightarrow> nat" where
  "hex_EncodedLen n = n * 2"

definition hex_EncodeToString :: "byte list \<Rightarrow> byte list option" where
  "hex_EncodeToString src =
     map_option fst (hex_Encode (replicate (hex_EncodedLen (length src)) 0) src)"

text \<open>
  \<open>Decode(dst, src)\<close> may be called with \<open>dst\<close> and \<open>src\<close> sharing memory
  (\<open>hex_DecodeString\<close> does), so it runs on an explicit store: \<open>memory\<close> is a byte array
  and a slice is a base address and a length into it.
\<close>

type_synonym memory = "byte list"

record slice =
  ptr :: nat
  len :: nat

datatype error = ErrLength | InvalidByteError byte | ErrCorrupt

text \<open>The five scalars \<open>failed\<close>, \<open>badIdx\<close>, \<open>badChar\<close>, \<open>acc\<close> and \<open>i\<close> of \<open>Decode\<close>.\<close>

record decode_vars =
  v_failed :: gint
  v_badIdx :: gint
  v_badChar :: gint
  v_acc :: byte
  v_i :: gint

text \<open>
  One iteration of the loop, at source index \<open>j\<close>. The store \<open>dst[i] = acc | val\<close>
  panics when \<open>i\<close> is negative or not below \<open>len(dst)\<close>.
\<close>

definition hex_Decode_step ::
  "slice \<Rightarrow> slice \<Rightarrow> nat \<Rightarrow> decode_vars \<times> memory \<Rightarrow> (decode_vars \<times> memory) option" where
  "hex_Decode_step dst src j sm =
     (let s = fst sm; m = snd sm;
          c = (ucast (m ! (ptr src + j)) :: uint);
          num = c XOR 0x30;
          num0 = drop_bit 8 (num - 10);
          alpha = (c AND NOT 32) - 55;
          alpha0 = drop_bit 8 ((alpha - 10) XOR (alpha - 16));
          bad = ConstantTimeByteEq (ucast (num0 OR alpha0)) 0;
          badIdx' = ConstantTimeSelect (v_failed s) (v_badIdx s)
                      (ConstantTimeSelect bad (v_i s) (v_badIdx s));
          badChar' = ConstantTimeSelect (v_failed s) (v_badChar s)
                      (ConstantTimeSelect bad c (v_badChar s));
          failed' = v_failed s OR bad;
          val = (ucast ((num0 AND num) OR (alpha0 AND alpha)) :: byte);
          s' = s\<lparr>v_failed := failed', v_badIdx := badIdx', v_badChar := badChar'\<rparr>
      in if j mod 2 = 0 then Some (s'\<lparr>v_acc := val * 16\<rparr>, m)
         else if 0 \<le> sint (v_i s) \<and> nat (sint (v_i s)) < len dst
         then Some (s'\<lparr>v_i := v_i s + 1\<rparr>,
                    m[ptr dst + nat (sint (v_i s)) := v_acc s OR val])
         else None)"

function hex_Decode_loop ::
  "slice \<Rightarrow> slice \<Rightarrow> nat \<Rightarrow> decode_vars \<times> memory \<Rightarrow> (decode_vars \<times> memory) option" where
  "hex_Decode_loop dst src j sm =
     (if j < len src
      then (case hex_Decode_step dst src j sm of
              None \<Rightarrow> None
            | Some sm' \<Rightarrow> hex_Decode_loop dst src (j + 1) sm')
      else Some sm)"
  by pat_completeness auto
termination
  by (relation "measure (\<lambda>(dst, src, j, sm). len src - j)") auto

declare hex_Decode_loop.simps [simp del]

definition hex_Decode :: "memory \<Rightarrow> slice \<Rightarrow> slice \<Rightarrow> (memory \<times> gint \<times> error option) option" where
  "hex_Decode m dst src =
     (case hex_Decode_loop dst src 0
             (\<lparr>v_failed = 0, v_badIdx = 0, v_badChar = 0, v_acc = 0, v_i = 0\<rparr>, m) of
        None \<Rightarrow> None
      | Some (s, m') \<Rightarrow>
          if v_failed s \<noteq> 0
          then Some (m', v_badIdx s, Some (InvalidByteError (ucast (v_badChar s))))
          else if len src mod 2 = 1
          then Some (m', v_i s, Some ErrLength)
          else Some (m', v_i s, None))"

text \<open>
  \<open>hex_DecodeString(s)\<close>: \<open>src := []byte(s)\<close> is one fresh buffer, passed to \<open>Decode\<close>
  as destination and as source; the result is \<open>src[:n]\<close> (a panic when \<open>n\<close> is out of
  range) and the error.
\<close>

definition hex_DecodeString :: "byte list \<Rightarrow> (byte list \<times> error option) option" where
  "hex_DecodeString s =
     (let src = \<lparr>ptr = 0, len = length s\<rparr>
      in case hex_Decode s src src of
           None \<Rightarrow> None
         | Some (m', n, err) \<Rightarrow>
             if 0 \<le> sint n \<and> nat (sint n) \<le> length s
             then Some (take (nat (sint n)) m', err)
             else None)"

text \<open>
  The same decoding into a separate destination buffer \<open>d\<close>, laid out in the store after
  the bytes of \<open>s\<close>.
\<close>

definition hex_Decode_separate :: "byte list \<Rightarrow> byte list \<Rightarrow> (byte list \<times> error option) option" where
  "hex_Decode_separate d s =
     (let src = \<lparr>ptr = 0, len = length s\<rparr>;
          dst = \<lparr>ptr = length s, len = length d\<rparr>
      in case hex_Decode (s @ d) dst src of
           None \<Rightarrow> None
         | Some (m', n, err) \<Rightarrow>
             if 0 \<le> sint n \<and> nat (sint n) \<le> length d
             then Some (take (nat (sint n)) (drop (length s) m'), err)
             else None)"

section \<open>Base64 codec\<close>

subsection \<open>Alphabet lookups\<close>

text \<open>
  The forward lookups \<open>stdLookup\<close> and \<open>urlLookup\<close>, their SWAR forms on 6 and on 3
  source bytes, and the reverse lookups \<open>stdRevLookup\<close> and \<open>urlRevLookup\<close>, each
  with the constants its source function has. In Go \<open>>>\<close> and \<open>&\<close> bind equally and
  associate to the left, tighter than \<open>+\<close>, \<open>-\<close>, \<open>|\<close> and \<open>^\<close>.
\<close>

definition stdLookup :: "uint \<Rightarrow> byte" where
  "stdLookup c =
     (let s = (0x41 :: uint);
          s = s + (drop_bit 8 (26 - c - 1) AND 6);
          s = s - (drop_bit 8 (52 - c - 1) AND 75);
          s = s - (drop_bit 8 (62 - c - 1) AND 15);
          s = s + (drop_bit 8 (63 - c - 1) AND 3)
      in ucast (c + s))"

definition stdLookupSWAR6 :: "uint64 \<Rightarrow> uint64" where
  "stdLookupSWAR6 u =
     (let u0 = push_bit 24 u AND 0xffffff0000000000;
          u1 = drop_bit 32 u AND 0x00000000ffffff00;
          v = u0 OR u1;
          c = (0 :: uint64);
          c = c OR (drop_bit 26 v AND 0x0000003f0000003f);
          c = c OR (drop_bit 12 v AND 0x00003f0000003f00);
          c = c OR (push_bit 2 v AND 0x003f0000003f0000);
          c = c OR (push_bit 16 v AND 0x3f0000003f000000);
          msb = (0x8080808080808080 :: uint64);
          c0 = (c + 0x6666666666666666) AND msb;
          c0 = c0 - drop_bit 7 c0;
          c0 = c0 AND 0x0606060606060606;
          c1 = (c + 0x4c4c4c4c4c4c4c4c) AND msb;
          c1msb = c1;
          c1 = c1 - drop_bit 7 c1;
          c1 = c1 AND 0x3b3b3b3b3b3b3b3b;
          c2 = (c + 0x4242424242424242) AND msb;
          c2 = c2 - drop_bit 7 c2;
          c2 = c2 AND 0x1111111111111111;
          c3 = (c + 0x4141414141414141) AND msb;
          c3 = c3 - drop_bit 7 c3;
          c3 = c3 AND 0x1d1d1d1d1d1d1d1d;
          s = 0x4141414141414141 XOR c0 XOR c1 XOR c2 XOR c3
      in (c + s) XOR c1msb)"

definition stdLookupSWAR3 :: "uint32 \<Rightarrow> uint32" where
  "stdLookupSWAR3 u =
     (let c = (0 :: uint32);
          c = c OR (drop_bit 26 u AND 0x0000003f);
          c = c OR (drop_bit 12 u AND 0x00003f00);
          c = c OR (push_bit 2 u AND 0x003f0000);
          c = c OR (push_bit 16 u AND 0x3f000000);
          msb = (0x80808080 :: uint32);
          c0 = (c + 0x66666666) AND msb;
          c0 = c0 - drop_bit 7 c0;
          c0 = c0 AND 0x06060606;
          c1 = (c + 0x4c4c4c4c) AND msb;
          c1msb = c1;
          c1 = c1 - drop_bit 7 c1;
          c1 = c1 AND 0x3b3b3b3b;
          c2 = (c + 0x42424242) AND msb;
          c2 = c2 - drop_bit 7 c2;
          c2 = c2 AND 0x11111111;
          c3 = (c + 0x41414141) AND msb;
          c3 = c3 - drop_bit 7 c3;
          c3 = c3 AND 0x1d1d1d1d;
          s = 0x41414141 XOR c0 XOR c1 XOR c2 XOR c3
      in (c + s) XOR c1msb)"

definition stdRevLookup :: "uint \<Rightarrow> byte" where
  "stdRevLookup c =
     (let s = (drop_bit 8 ((64 - c) AND (c - 91)) AND 191) XOR
              (drop_bit 8 ((96 - c) AND (c - 123)) AND 185) XOR
              (drop_bit 8 ((47 - c) AND (c - 58)) AND 4) XOR
              (drop_bit 8 ((42 - c) AND (c - 44)) AND 19) XOR
              (drop_bit 8 ((46 - c) AND (c - 48)) AND 16)
      in ucast (((s + c) AND 0x3f) OR ((drop_bit 8 (0 - s) AND 0xff) XOR 0xff)))"

definition urlLookup :: "uint \<Rightarrow> byte" where
  "urlLookup c =
     (let s = (0x41 :: uint);
          s = s + (drop_bit 8 (26 - c - 1) AND 6);
          s = s - (drop_bit 8 (52 - c - 1) AND 75);
          s = s - (drop_bit 8 (62 - c - 1) AND 13);
          s = s + (drop_bit 8 (63 - c - 1) AND 49)
      in ucast (c + s))"

definition urlLookupSWAR6 :: "uint64 \<Rightarrow> uint64" where
  "urlLookupSWAR6 u =
     (let u0 = push_bit 24 u AND 0xffffff0000000000;
          u1 = drop_bit 32 u AND 0x00000000ffffff00;
          v = u0 OR u1;
          c = (0 :: uint64);
          c = c OR (drop_bit 26 v AND 0x0000003f0000003f);
          c = c OR (drop_bit 12 v AND 0x00003f0000003f00);
          c = c OR (push_bit 2 v AND 0x003f0000003f0000);
          c = c OR (push_bit 16 v AND 0x3f0000003f000000);
          msb = (0x8080808080808080 :: uint64);
          c0 = (c + 0x6666666666666666) AND msb;
          c0 = c0 - drop_bit 7 c0;
          c0 = c0 AND 0x0606060606060606;
          c1 = (c + 0x4c4c4c4c4c4c4c4c) AND msb;
          c1msb = c1;
          c1 = c1 - drop_bit 7 c1;
          c1 = c1 AND 0x3b3b3b3b3b3b3b3b;
          c2 = (c + 0x4242424242424242) AND msb;
          c2 = c2 - drop_bit 7 c2;
          c2 = c2 AND 0x0d0d0d0d0d0d0d0d;
          c3 = (c + 0x4141414141414141) AND msb;
          c3 = c3 - drop_bit 7 c3;
          c3 = c3 AND 0x3131313131313131;
          s = 0x4141414141414141 XOR c0 XOR c1 XOR c2 XOR c3
      in (c + s) XOR c1msb)"

definition urlLookupSWAR3 :: "uint32 \<Rightarrow> uint32" where
  "urlLookupSWAR3 u =
     (let c = (0 :: uint32);
          c = c OR (drop_bit 26 u AND 0x0000003f);
          c = c OR (drop_bit 12 u AND 0x00003f00);
          c = c OR (push_bit 2 u AND 0x003f0000);
          c = c OR (push_bit 16 u AND 0x3f000000);
          msb = (0x80808080 :: uint32);
          c0 = (c + 0x66666666) AND msb;
          c0 = c0 - drop_bit 7 c0;
          c0 = c0 AND 0x06060606;
          c1 = (c + 0x4c4c4c4c) AND msb;
          c1msb = c1;
          c1 = c1 - drop_bit 7 c1;
          c1 = c1 AND 0x3b3b3b3b;
          c2 = (c + 0x42424242) AND msb;
          c2 = c2 - drop_bit 7 c2;
          c2 = c2 AND 0x11111111;
          c3 = (c + 0x41414141) AND msb;
          c3 = c3 - drop_bit 7 c3;
          c3 = c3 AND 0x1d1d1d1d;
          s = 0x41414141 XOR c0 XOR c1 XOR c2 XOR c3
      in (c + s) XOR c1msb)"

definition urlRevLookup :: "uint \<Rightarrow> byte" where
  "urlRevLookup c =
     (let s = (drop_bit 8 ((64 - c) AND (c - 91)) AND 191) XOR
              (drop_bit 8 ((96 - c) AND (c - 123)) AND 185) XOR
              (drop_bit 8 ((47 - c) AND (c - 58)) AND 4) XOR
              (drop_bit 8 ((42 - c) AND (c - 44)) AND 19) XOR
              (drop_bit 8 ((46 - c) AND (c - 48)) AND 16)
      in ucast (((s + c) AND 0x3f) OR ((drop_bit 8 (0 - s) AND 0xff) XOR 0xff)))"

subsection \<open>Byte order helpers of \<open>encoding/binary\<close>\<close>

text \<open>
  \<open>binary.BigEndian.Uint64(b)\<close> reads \<open>b[0..7]\<close>; the \<open>Put\<close> functions store the
  bytes of a word at \<open>dst[off..]\<close>. Callers check the lengths before they call, where the
  standard library would panic.
\<close>

definition BigEndian_Uint64 :: "byte list \<Rightarrow> uint64" where
  "BigEndian_Uint64 b =
     ucast (b ! 7) OR push_bit 8 (ucast (b ! 6)) OR push_bit 16 (ucast (b ! 5)) OR
     push_bit 24 (ucast (b ! 4)) OR push_bit 32 (ucast (b ! 3)) OR push_bit 40 (ucast (b ! 2)) OR
     push_bit 48 (ucast (b ! 1)) OR push_bit 56 (ucast (b ! 0))"

definition LittleEndian_PutUint64 :: "byte list \<Rightarrow> nat \<Rightarrow> uint64 \<Rightarrow> byte list" where
  "LittleEndian_PutUint64 dst off v =
     dst[off := ucast v, off + 1 := ucast (drop_bit 8 v), off + 2 := ucast (drop_bit 16 v),
         off + 3 := ucast (drop_bit 24 v), off + 4 := ucast (drop_bit 32 v),
         off + 5 := ucast (drop_bit 40 v), off + 6 := ucast (drop_bit 48 v),
         off + 7 := ucast (drop_bit 56 v)]"

definition LittleEndian_PutUint32 :: "byte list \<Rightarrow> nat \<Rightarrow> uint32 \<Rightarrow> byte list" where
  "LittleEndian_PutUint32 dst off v =
     dst[off := ucast v, off + 1 := ucast (drop_bit 8 v), off + 2 := ucast (drop_bit 16 v),
         off + 3 := ucast (drop_bit 24 v)]"

definition BigEndian_PutUint64 :: "byte list \<Rightarrow> nat \<Rightarrow> uint64 \<Rightarrow> byte list" where
  "BigEndian_PutUint64 dst off v =
     dst[off := ucast (drop_bit 56 v), off + 1 := ucast (drop_bit 48 v),
         off + 2 := ucast (drop_bit 40 v), off + 3 := ucast (drop_bit 32 v),
         off + 4 := ucast (drop_bit 24 v), off + 5 := ucast (drop_bit 16 v),
         off + 6 := ucast (drop_bit 8 v), off + 7 := ucast v]"

definition BigEndian_PutUint32 :: "byte list \<Rightarrow> nat \<Rightarrow> uint32 \<Rightarrow> byte list" where
  "BigEndian_PutUint32 dst off v =
     dst[off := ucast (drop_bit 24 v), off + 1 := ucast (drop_bit 16 v),
         off + 2 := ucast (drop_bit 8 v), off + 3 := ucast v]"

text \<open>
  A store \<open>dst[k] = v\<close> into the slice that starts at \<open>off\<close> in the buffer: a panic
  (\<open>None\<close>) when \<open>k\<close> is not below the slice's length.
\<close>

definition store :: "byte list \<Rightarrow> nat \<Rightarrow> nat \<Rightarrow> byte \<Rightarrow> byte list option" where
  "store buf off k v = (if off + k < length buf then Some (buf[off + k := v]) else None)"

subsection \<open>Encoding\<close>

definition NoPadding :: rune where
  "NoPadding = - 1"

definition StdPadding :: rune where
  "StdPadding = 0x3D"

text \<open>
  \<open>stdEncode\<close> and \<open>urlEncode\<close> are the same text over their own lookup functions,
  so the three stages take the lookups as arguments. The destination is the whole buffer
  \<open>buf\<close> with the offset \<open>off\<close> of the current \<open>dst\<close> slice in it (\<open>dst = dst[8:]\<close>
  is \<open>off + 8\<close>), so that \<open>len(dst)\<close> is \<open>length buf - off\<close>.
\<close>

function encode_loop6 ::
  "(uint64 \<Rightarrow> uint64) \<Rightarrow> byte list \<Rightarrow> nat \<Rightarrow> byte list \<Rightarrow> byte list \<times> nat \<times> byte list" where
  "encode_loop6 sw6 buf off src =
     (if 8 \<le> length src \<and> 8 \<le> length buf - off
      then encode_loop6 sw6
             (LittleEndian_PutUint64 buf off (sw6 (BigEndian_Uint64 src))) (off + 8) (drop 6 src)
      else (buf, off, src))"
  by pat_completeness auto
termination
  by (relation "measure (\<lambda>(sw6, buf, off, src). length src)") auto

declare encode_loop6.simps [simp del]

text \<open>\<open>binary.LittleEndian.PutUint32(dst, ...)\<close> panics when \<open>len(dst) < 4\<close>.\<close>

function encode_loop3 ::
  "(uint32 \<Rightarrow> uint32) \<Rightarrow> byte list \<Rightarrow> nat \<Rightarrow> byte list \<Rightarrow> (byte list \<times> nat \<times> byte list) option" where
  "encode_loop3 sw3 buf off src =
     (if 3 \<le> length src
      then (let v = push_bit 16 (ucast (src ! 0) :: uint32) OR push_bit 8 (ucast (src ! 1)) OR
                    ucast (src ! 2)
            in if 4 \<le> length buf - off
               then encode_loop3 sw3 (LittleEndian_PutUint32 buf off (sw3 (push_bit 8 v)))
                      (off + 4) (drop 3 src)
               else None)
      else Some (buf, off, src))"
  by pat_completeness auto
termination
  by (relation "measure (\<lambda>(sw3, buf, off, src). length src)") auto

declare encode_loop3.simps [simp del]

definition encode_tail ::
  "(uint \<Rightarrow> byte) \<Rightarrow> rune \<Rightarrow> byte list \<Rightarrow> nat \<Rightarrow> byte list \<Rightarrow> byte list option" where
  "encode_tail lk pad buf off src =
     (if length src = 2
      then (let v = push_bit 16 (ucast (src ! 0) :: uint) OR push_bit 8 (ucast (src ! 1))
            in do {
                 b \<leftarrow> store buf off 2 (lk (drop_bit 6 v AND 0x3f));
                 b \<leftarrow> store b off 1 (lk (drop_bit 12 v AND 0x3f));
                 b \<leftarrow> store b off 0 (lk (drop_bit 18 v AND 0x3f));
                 if pad \<noteq> NoPadding then store b off 3 (ucast pad) else Some b
               })
      else if length src = 1
      then (let v = push_bit 16 (ucast (src ! 0) :: uint)
            in do {
                 b \<leftarrow> store buf off 1 (lk (drop_bit 12 v AND 0x3f));
                 b \<leftarrow> store b off 0 (lk (drop_bit 18 v AND 0x3f));
                 if pad \<noteq> NoPadding
                 then do { b \<leftarrow> store b off 3 (ucast pad); store b off 2 (ucast pad) }
                 else Some b
               })
      else Some buf)"

definition encode_with ::
  "(uint64 \<Rightarrow> uint64) \<Rightarrow> (uint32 \<Rightarrow> uint32) \<Rightarrow> (uint \<Rightarrow> byte) \<Rightarrow>
   byte list \<Rightarrow> byte list \<Rightarrow> rune \<Rightarrow> byte list option" where
  "encode_with sw6 sw3 lk dst src pad =
     (if length src = 0 then Some dst
      else case encode_loop6 sw6 dst 0 src of
             (buf, off, src') \<Rightarrow>
               (case encode_loop3 sw3 buf off src' of
                  None \<Rightarrow> None
                | Some (buf', off', src'') \<Rightarrow> encode_tail lk pad buf' off' src''))"

definition stdEncode :: "byte list \<Rightarrow> byte list \<Rightarrow> rune \<Rightarrow> byte list option" where
  "stdEncode = encode_with stdLookupSWAR6 stdLookupSWAR3 stdLookup"

definition urlEncode :: "byte list \<Rightarrow> byte list \<Rightarrow> rune \<Rightarrow> byte list option" where
  "urlEncode = encode_with urlLookupSWAR6 urlLookupSWAR3 urlLookup"

subsection \<open>Decoding\<close>

text \<open>
  \<open>stdDecode\<close> and \<open>urlDecode\<close> likewise, over the reverse lookup \<open>rl\<close>. The state of
  the loops is the destination buffer, the count \<open>n\<close>, the rest of \<open>src\<close> and
  \<open>failed\<close>. The two bulk loops store 8 and 4 bytes at \<open>dst[n:]\<close> and advance \<open>n\<close> by
  6 and by 3.
\<close>

function decode_loop8 ::
  "(uint \<Rightarrow> byte) \<Rightarrow> byte list \<Rightarrow> nat \<Rightarrow> byte list \<Rightarrow> byte \<Rightarrow>
   byte list \<times> nat \<times> byte list \<times> byte" where
  "decode_loop8 rl dst n src fl =
     (if 8 \<le> length src \<and> 8 \<le> int (length dst) - int n
      then (let c0 = rl (ucast (src ! 0)); c1 = rl (ucast (src ! 1));
                c2 = rl (ucast (src ! 2)); c3 = rl (ucast (src ! 3));
                c4 = rl (ucast (src ! 4)); c5 = rl (ucast (src ! 5));
                c6 = rl (ucast (src ! 6)); c7 = rl (ucast (src ! 7));
                c = push_bit 58 (ucast c0 :: uint64) OR push_bit 52 (ucast c1) OR
                    push_bit 46 (ucast c2) OR push_bit 40 (ucast c3) OR
                    push_bit 34 (ucast c4) OR push_bit 28 (ucast c5) OR
                    push_bit 22 (ucast c6) OR push_bit 16 (ucast c7)
            in decode_loop8 rl (BigEndian_PutUint64 dst n c) (n + 6) (drop 8 src)
                 (fl OR (c0 OR c1 OR c2 OR c3 OR c4 OR c5 OR c6 OR c7)))
      else (dst, n, src, fl))"
  by pat_completeness auto
termination
  by (relation "measure (\<lambda>(rl, dst, n, src, fl). length src)") auto

declare decode_loop8.simps [simp del]

function decode_loop4 ::
  "(uint \<Rightarrow> byte) \<Rightarrow> byte list \<Rightarrow> nat \<Rightarrow> byte list \<Rightarrow> byte \<Rightarrow>
   byte list \<times> nat \<times> byte list \<times> byte" where
  "decode_loop4 rl dst n src fl =
     (if 4 \<le> length src \<and> 4 \<le> int (length dst) - int n
      then (let c0 = rl (ucast (src ! 0)); c1 = rl (ucast (src ! 1));
                c2 = rl (ucast (src ! 2)); c3 = rl (ucast (src ! 3));
                c = push_bit 26 (ucast c0 :: uint32) OR push_bit 20 (ucast c1) OR
                    push_bit 14 (ucast c2) OR push_bit 8 (ucast c3)
            in decode_loop4 rl (BigEndian_PutUint32 dst n c) (n + 3) (drop 4 src)
                 (fl OR (c0 OR c1 OR c2 OR c3)))
      else (dst, n, src, fl))"
  by pat_completeness auto
termination
  by (relation "measure (\<lambda>(rl, dst, n, src, fl). length src)") auto

declare decode_loop4.simps [simp del]

text \<open>The scalar loop has no check of the destination: its stores may panic.\<close>

function decode_loop4s ::
  "(uint \<Rightarrow> byte) \<Rightarrow> byte list \<Rightarrow> nat \<Rightarrow> byte list \<Rightarrow> byte \<Rightarrow>
   (byte list \<times> nat \<times> byte list \<times> byte) option" where
  "decode_loop4s rl dst n src fl =
     (if 4 \<le> length src
      then (let c0 = rl (ucast (src ! 0)); c1 = rl (ucast (src ! 1));
                c2 = rl (ucast (src ! 2)); c3 = rl (ucast (src ! 3))
            in case do {
                      d \<leftarrow> store dst n 0 (push_bit 2 c0 OR drop_bit 4 c1);
                      d \<leftarrow> store d n 1 (push_bit 4 c1 OR drop_bit 2 c2);
                      store d n 2 (push_bit 6 c2 OR c3)
                    } of
                 None \<Rightarrow> None
               | Some d \<Rightarrow> decode_loop4s rl d (n + 3) (drop 4 src) (fl OR (c0 OR c1 OR c2 OR c3)))
      else Some (dst, n, src, fl))"
  by pat_completeness auto
termination
  by (relation "measure (\<lambda>(rl, dst, n, src, fl). length src)") auto

declare decode_loop4s.simps [simp del]

text \<open>The final \<open>switch len(src)\<close>; \<open>st\<close> is the \<open>strict\<close> flag.\<close>

definition decode_tail ::
  "(uint \<Rightarrow> byte) \<Rightarrow> bool \<Rightarrow> byte list \<Rightarrow> nat \<Rightarrow> byte list \<Rightarrow> byte \<Rightarrow>
   (byte list \<times> nat \<times> byte) option" where
  "decode_tail rl st dst n src fl =
     (if length src = 3
      then (let c0 = rl (ucast (src ! 0)); c1 = rl (ucast (src ! 1));
                c2 = rl (ucast (src ! 2))
            in do {
                 d \<leftarrow> store dst n 0 (push_bit 2 c0 OR drop_bit 4 c1);
                 d \<leftarrow> store d n 1 (push_bit 4 c1 OR drop_bit 2 c2);
                 let fl = fl OR (c0 OR c1 OR c2);
                     fl = (if st
                           then fl OR ucast (drop_bit 8 (0 - (ucast (c2 AND 0x3) :: uint)))
                           else fl)
                 in Some (d, n + 2, fl)
               })
      else if length src = 2
      then (let c0 = rl (ucast (src ! 0)); c1 = rl (ucast (src ! 1))
            in do {
                 d \<leftarrow> store dst n 0 (push_bit 2 c0 OR drop_bit 4 c1);
                 let fl = fl OR (c0 OR c1);
                     fl = (if st
                           then fl OR ucast (drop_bit 8 (0 - (ucast (c1 AND 0xf) :: uint)))
                           else fl)
                 in Some (d, n + 1, fl)
               })
      else if length src = 0 then Some (dst, n, fl)
      else Some (dst, n, fl OR 0xff))"

text \<open>
  What follows the length check: the stripping of up to two pad characters, the three
  loops and the tail. The reads \<open>src[len(src)-1]\<close> and \<open>src[len(src)-2]\<close> are in
  range, since a padded \<open>src\<close> gets here only when its length is a positive multiple
  of 4.
\<close>

definition decode_body ::
  "(uint \<Rightarrow> byte) \<Rightarrow> byte list \<Rightarrow> byte list \<Rightarrow> rune \<Rightarrow> bool \<Rightarrow>
   (byte list \<times> nat \<times> error option) option" where
  "decode_body rl dst src pad st =
     (let src = (if pad \<noteq> NoPadding
                 then (let t = ConstantTimeByteEq (src ! (length src - 1)) (ucast pad) +
                               ConstantTimeByteEq (src ! (length src - 2)) (ucast pad)
                       in take (length src - unat t) src)
                 else src)
      in case decode_loop8 rl dst 0 src 0 of
           (d1, n1, src1, fl1) \<Rightarrow>
             (case decode_loop4 rl d1 n1 src1 fl1 of
                (d2, n2, src2, fl2) \<Rightarrow>
                  (case decode_loop4s rl d2 n2 src2 fl2 of
                     None \<Rightarrow> None
                   | Some (d3, n3, src3, fl3) \<Rightarrow>
                       (case decode_tail rl st d3 n3 src3 fl3 of
                          None \<Rightarrow> None
                        | Some (d4, n4, fl4) \<Rightarrow>
                            Some (d4, n4,
                                  if fl4 AND 0xff = 0xff then Some ErrCorrupt else None)))))"

text \<open>The \<open>switch len(src) % 4\<close> at the start, with its two early returns.\<close>

definition decode_with ::
  "(uint \<Rightarrow> byte) \<Rightarrow> byte list \<Rightarrow> byte list \<Rightarrow> rune \<Rightarrow> bool \<Rightarrow>
   (byte list \<times> nat \<times> error option) option" where
  "decode_with rl dst src pad st =
     (if length src = 0 then Some (dst, 0, None)
      else if length src mod 4 = 0 then decode_body rl dst src pad st
      else if length src mod 4 = 2 \<or> length src mod 4 = 3
      then (if pad \<noteq> NoPadding then Some (dst, 0, Some ErrCorrupt)
            else decode_body rl dst src pad st)
      else Some (dst, 0, Some ErrCorrupt))"

definition stdDecode ::
  "byte list \<Rightarrow> byte list \<Rightarrow> rune \<Rightarrow> bool \<Rightarrow> (byte list \<times> nat \<times> error option) option" where
  "stdDecode = decode_with stdRevLookup"

definition urlDecode ::
  "byte list \<Rightarrow> byte list \<Rightarrow> rune \<Rightarrow> bool \<Rightarrow> (byte list \<times> nat \<times> error option) option" where
  "urlDecode = decode_with urlRevLookup"

subsection \<open>The \<open>Encoding\<close> type and its methods\<close>

record Encoding =
  encode :: "byte list \<Rightarrow> byte list \<Rightarrow> rune \<Rightarrow> byte list option"
  decode :: "byte list \<Rightarrow> byte list \<Rightarrow> rune \<Rightarrow> bool \<Rightarrow> (byte list \<times> nat \<times> error option) option"
  padChar :: rune
  strict :: bool

definition StdEncoding :: Encoding where
  "StdEncoding = \<lparr>encode = stdEncode, decode = stdDecode, padChar = StdPadding, strict = False\<rparr>"

definition RawStdEncoding :: Encoding where
  "RawStdEncoding = \<lparr>encode = stdEncode, decode = stdDecode, padChar = NoPadding, strict = False\<rparr>"

definition URLEncoding :: Encoding where
  "URLEncoding = \<lparr>encode = urlEncode, decode = urlDecode, padChar = StdPadding, strict = False\<rparr>"

definition RawURLEncoding :: Encoding where
  "RawURLEncoding = \<lparr>encode = urlEncode, decode = urlDecode, padChar = NoPadding, strict = False\<rparr>"

definition Strict :: "Encoding \<Rightarrow> Encoding" where
  "Strict e = e\<lparr>strict := True\<rparr>"

definition Encoding_EncodedLen :: "Encoding \<Rightarrow> nat \<Rightarrow> nat" where
  "Encoding_EncodedLen e n =
     (if padChar e = NoPadding then (n * 8 + 5) div 6 else (n + 2) div 3 * 4)"

definition Encoding_DecodedLen :: "Encoding \<Rightarrow> nat \<Rightarrow> nat" where
  "Encoding_DecodedLen e n =
     (if padChar e = NoPadding then n * 6 div 8 else n div 4 * 3)"

definition Encoding_Encode :: "Encoding \<Rightarrow> byte list \<Rightarrow> byte list \<Rightarrow> byte list option" where
  "Encoding_Encode e dst src = encode e dst src (padChar e)"

definition Encoding_EncodeToString :: "Encoding \<Rightarrow> byte list \<Rightarrow> byte list option" where
  "Encoding_EncodeToString e src =
     Encoding_Encode e (replicate (Encoding_EncodedLen e (length src)) 0) src"

definition Encoding_Decode ::
  "Encoding \<Rightarrow> byte list \<Rightarrow> byte list \<Rightarrow> (byte list \<times> nat \<times> error option) option" where
  "Encoding_Decode e dst src = decode e dst src (padChar e) (strict e)"

definition Encoding_DecodeString ::
  "Encoding \<Rightarrow> byte list \<Rightarrow> (byte list \<times> error option) option" where
  "Encoding_DecodeString e src =
     (case Encoding_Decode e (replicate (Encoding_DecodedLen e (length src)) 0) src of
        None \<Rightarrow> None
      | Some (dst, n, err) \<Rightarrow> if n \<le> length dst then Some (take n dst, err) else None)"

section \<open>Reference functions\<close>

text \<open>
  What the claims compare the code with. The lowercase hexadecimal character of a nibble:
  \<open>'0'\<close>-\<open>'9'\<close> below 10, \<open>'a'\<close>-\<open>'f'\<close> from 10 on; and the hexadecimal text of a
  byte string, the high nibble of each byte first.
\<close>

definition hex_digit :: "byte \<Rightarrow> byte" where
  "hex_digit n = (if n < 10 then 0x30 + n else 0x61 + (n - 10))"

definition hex_text :: "byte list \<Rightarrow> byte list" where
  "hex_text src = concat (map (\<lambda>v. [hex_digit (drop_bit 4 v), hex_digit (v AND 0x0f)]) src)"

text \<open>
  The index of the first byte of a string that is not a hexadecimal digit, if there is
  one.
\<close>

fun first_invalid :: "byte list \<Rightarrow> nat option" where
  "first_invalid [] = None"
| "first_invalid (c # cs) =
     (if is_hex_digit c then map_option Suc (first_invalid cs) else Some 0)"

section \<open>The loop of the hex decoder, step by step\<close>

text \<open>
  The two values that one iteration of \<open>hex_Decode_step\<close> computes from the source byte
  \<open>c\<close> alone, \<open>bad\<close> and \<open>val\<close>, with the expressions of the source; the byte that
  the decoder stores at destination index \<open>t\<close>; and the state of the loop before
  iteration \<open>j\<close>, in terms of the store \<open>m0\<close> at the call.
\<close>

definition hex_bad :: "byte \<Rightarrow> gint" where
  "hex_bad b =
     (let c = (ucast b :: uint);
          num = c XOR 0x30;
          num0 = drop_bit 8 (num - 10);
          alpha = (c AND NOT 32) - 55;
          alpha0 = drop_bit 8 ((alpha - 10) XOR (alpha - 16))
      in ConstantTimeByteEq (ucast (num0 OR alpha0)) 0)"

definition hex_val :: "byte \<Rightarrow> byte" where
  "hex_val b =
     (let c = (ucast b :: uint);
          num = c XOR 0x30;
          num0 = drop_bit 8 (num - 10);
          alpha = (c AND NOT 32) - 55;
          alpha0 = drop_bit 8 ((alpha - 10) XOR (alpha - 16))
      in ucast ((num0 AND num) OR (alpha0 AND alpha)))"

definition hex_out :: "byte list \<Rightarrow> nat \<Rightarrow> byte" where
  "hex_out bs t = hex_val (bs ! (2 * t)) * 16 OR hex_val (bs ! (2 * t + 1))"

text \<open>
  The value of a hexadecimal digit, of either case, and 0 for any other byte: what
  \<open>val\<close> is to be.
\<close>

definition hex_digit_value :: "byte \<Rightarrow> byte" where
  "hex_digit_value c =
     (if 0x30 \<le> c \<and> c \<le> 0x39 then c - 0x30
      else if 0x41 \<le> c \<and> c \<le> 0x46 then c - 0x37
      else if 0x61 \<le> c \<and> c \<le> 0x66 then c - 0x57
      else 0)"

definition src_bytes :: "memory \<Rightarrow> slice \<Rightarrow> byte list" where
  "src_bytes m src = take (len src) (drop (ptr src) m)"

definition Decode_inv ::
  "memory \<Rightarrow> slice \<Rightarrow> slice \<Rightarrow> nat \<Rightarrow> decode_vars \<times> memory \<Rightarrow> bool" where
  "Decode_inv m0 dst src j sm =
     (let bs = src_bytes m0 src; s = fst sm; m = snd sm
      in length m = length m0 \<and>
         (\<forall>a < length m0.
            m ! a = (if ptr dst \<le> a \<and> a < ptr dst + j div 2
                     then hex_out bs (a - ptr dst) else m0 ! a)) \<and>
         v_i s = of_nat (j div 2) \<and>
         (odd j \<longrightarrow> v_acc s = hex_val (bs ! (j - 1)) * 16) \<and>
         v_failed s = (if first_invalid (take j bs) = None then 0 else 1) \<and>
         (\<forall>k. first_invalid (take j bs) = Some k \<longrightarrow>
              v_badIdx s = of_nat (k div 2) \<and> v_badChar s = ucast (bs ! k)))"

text \<open>
  What a call \<open>Decode(dst, src)\<close> on the store \<open>m0\<close> needs: both slices lie in the
  store, \<open>dst\<close> has room for \<open>len(src) / 2\<close> bytes, \<open>dst\<close> starts at or before
  \<open>src\<close> or after its end, and the length fits Go's \<open>int\<close>.
\<close>

definition Decode_pre :: "memory \<Rightarrow> slice \<Rightarrow> slice \<Rightarrow> bool" where
  "Decode_pre m0 dst src =
     (ptr src + len src \<le> length m0 \<and> ptr dst + len dst \<le> length m0 \<and>
      len src div 2 \<le> len dst \<and>
      (ptr dst \<le> ptr src \<or> ptr src + len src \<le> ptr dst) \<and>
      len src < 2 ^ 63)"

text \<open>
  The count and the error that \<open>Decode\<close> returns for the source bytes \<open>bs\<close>: the
  destination index at the first invalid byte and that byte, or else half the length
  and the length error when the length is odd.
\<close>

definition hex_count :: "byte list \<Rightarrow> nat" where
  "hex_count bs = (case first_invalid bs of Some k \<Rightarrow> k div 2 | None \<Rightarrow> length bs div 2)"

definition hex_error :: "byte list \<Rightarrow> error option" where
  "hex_error bs =
     (case first_invalid bs of
        Some k \<Rightarrow> Some (InvalidByteError (bs ! k))
      | None \<Rightarrow> if odd (length bs) then Some ErrLength else None)"

section \<open>The output of the Base64 encoder as a function of the source\<close>

text \<open>
  \<open>write_at buf off xs\<close> is the buffer \<open>buf\<close> with the bytes \<open>xs\<close> stored from
  index \<open>off\<close> on. The bytes that the three stages of the encoder produce, and the part
  of the source that each bulk stage leaves to the next, follow the loops of
  \<open>encode_loop6\<close>, \<open>encode_loop3\<close> and \<open>encode_tail\<close> without the destination.
\<close>

definition write_at :: "byte list \<Rightarrow> nat \<Rightarrow> byte list \<Rightarrow> byte list" where
  "write_at buf off xs = take off buf @ xs @ drop (off + length xs) buf"

definition le_bytes64 :: "uint64 \<Rightarrow> byte list" where
  "le_bytes64 v =
     [ucast v, ucast (drop_bit 8 v), ucast (drop_bit 16 v), ucast (drop_bit 24 v),
      ucast (drop_bit 32 v), ucast (drop_bit 40 v), ucast (drop_bit 48 v),
      ucast (drop_bit 56 v)]"

definition le_bytes32 :: "uint32 \<Rightarrow> byte list" where
  "le_bytes32 v = [ucast v, ucast (drop_bit 8 v), ucast (drop_bit 16 v), ucast (drop_bit 24 v)]"

function enc6_out :: "(uint64 \<Rightarrow> uint64) \<Rightarrow> byte list \<Rightarrow> byte list" where
  "enc6_out sw6 src =
     (if 8 \<le> length src
      then le_bytes64 (sw6 (BigEndian_Uint64 src)) @ enc6_out sw6 (drop 6 src)
      else [])"
  by pat_completeness auto
termination
  by (relation "measure (\<lambda>(sw6, src). length src)") auto

declare enc6_out.simps [simp del]

function enc6_rest :: "byte list \<Rightarrow> byte list" where
  "enc6_rest src = (if 8 \<le> length src then enc6_rest (drop 6 src) else src)"
  by pat_completeness auto
termination
  by (relation "measure length") auto

declare enc6_rest.simps [simp del]

function enc3_out :: "(uint32 \<Rightarrow> uint32) \<Rightarrow> byte list \<Rightarrow> byte list" where
  "enc3_out sw3 src =
     (if 3 \<le> length src
      then le_bytes32
             (sw3 (push_bit 8 (push_bit 16 (ucast (src ! 0) :: uint32) OR
                               push_bit 8 (ucast (src ! 1)) OR ucast (src ! 2)))) @
           enc3_out sw3 (drop 3 src)
      else [])"
  by pat_completeness auto
termination
  by (relation "measure (\<lambda>(sw3, src). length src)") auto

declare enc3_out.simps [simp del]

function enc3_rest :: "byte list \<Rightarrow> byte list" where
  "enc3_rest src = (if 3 \<le> length src then enc3_rest (drop 3 src) else src)"
  by pat_completeness auto
termination
  by (relation "measure length") auto

declare enc3_rest.simps [simp del]

definition tail_out :: "(uint \<Rightarrow> byte) \<Rightarrow> rune \<Rightarrow> byte list \<Rightarrow> byte list" where
  "tail_out lk pad src =
     (if length src = 2
      then (let v = push_bit 16 (ucast (src ! 0) :: uint) OR push_bit 8 (ucast (src ! 1))
            in [lk (drop_bit 18 v AND 0x3f), lk (drop_bit 12 v AND 0x3f),
                lk (drop_bit 6 v AND 0x3f)] @
               (if pad \<noteq> NoPadding then [ucast pad] else []))
      else if length src = 1
      then (let v = push_bit 16 (ucast (src ! 0) :: uint)
            in [lk (drop_bit 18 v AND 0x3f), lk (drop_bit 12 v AND 0x3f)] @
               (if pad \<noteq> NoPadding then [ucast pad, ucast pad] else []))
      else [])"

definition encoded ::
  "(uint64 \<Rightarrow> uint64) \<Rightarrow> (uint32 \<Rightarrow> uint32) \<Rightarrow> (uint \<Rightarrow> byte) \<Rightarrow> rune \<Rightarrow>
   byte list \<Rightarrow> byte list" where
  "encoded sw6 sw3 lk pad src =
     enc6_out sw6 src @ enc3_out sw3 (enc6_rest src) @
     tail_out lk pad (enc3_rest (enc6_rest src))"

definition enc_len :: "rune \<Rightarrow> nat \<Rightarrow> nat" where
  "enc_len pad n = (if pad = NoPadding then (n * 8 + 5) div 6 else (n + 2) div 3 * 4)"

section \<open>The count of the Base64 decoder as a function of the source\<close>

text \<open>
  The number of pad characters that the decoder strips (it looks at the last two bytes
  only), and the number of bytes that the source decodes to: none when the length is
  rejected, else three for every four characters and two or one for a tail of three or
  two characters. Neither depends on whether the characters are in the alphabet.
\<close>

definition pad_count :: "rune \<Rightarrow> byte list \<Rightarrow> nat" where
  "pad_count pad src =
     (if pad = NoPadding then 0
      else (if src ! (length src - 1) = ucast pad then 1 else 0) +
           (if src ! (length src - 2) = ucast pad then 1 else 0))"

definition tail_count :: "nat \<Rightarrow> nat" where
  "tail_count r = (if r = 3 then 2 else if r = 2 then 1 else 0)"

definition group_count :: "nat \<Rightarrow> nat" where
  "group_count l = l div 4 * 3 + tail_count (l mod 4)"

definition decoded_count :: "rune \<Rightarrow> byte list \<Rightarrow> nat" where
  "decoded_count pad src =
     (if length src = 0 then 0
      else if length src mod 4 = 0 then group_count (length src - pad_count pad src)
      else if length src mod 4 = 2 \<or> length src mod 4 = 3
      then (if pad \<noteq> NoPadding then 0 else group_count (length src))
      else 0)"

section \<open>Notation for test inputs\<close>

text \<open>The bytes of an ASCII string literal, as \<open>[]byte("...")\<close> gives them.\<close>

definition bytes :: "string \<Rightarrow> byte list" where
  "bytes s = map (\<lambda>c. of_nat (of_char c)) s"

text \<open>
  The two alphabets, as the tables \<open>stdTable\<close> and \<open>urlTable\<close> of the package's
  tests, and the 6-bit value of a character in each alphabet (its position in the table),
  or 0xFF when the character is not in the alphabet.
\<close>

definition stdTable :: "byte list" where
  "stdTable = bytes ''ABCDEFGHIJKLMNOPQRSTUVWXYZabcdefghijklmnopqrstuvwxyz0123456789+/''"

definition urlTable :: "byte list" where
  "urlTable = bytes ''ABCDEFGHIJKLMNOPQRSTUVWXYZabcdefghijklmnopqrstuvwxyz0123456789-_''"

definition std_value :: "byte \<Rightarrow> byte" where
  "std_value c =
     (if 0x41 \<le> c \<and> c \<le> 0x5A then c - 0x41
      else if 0x61 \<le> c \<and> c \<le> 0x7A then c - 0x61 + 26
      else if 0x30 \<le> c \<and> c \<le> 0x39 then c - 0x30 + 52
      else if c = 0x2B then 62
      else if c = 0x2F then 63
      else 0xFF)"

definition url_value :: "byte \<Rightarrow> byte" where
  "url_value c =
     (if 0x41 \<le> c \<and> c \<le> 0x5A then c - 0x41
      else if 0x61 \<le> c \<and> c \<le> 0x7A then c - 0x61 + 26
      else if 0x30 \<le> c \<and> c \<le> 0x39 then c - 0x30 + 52
      else if c = 0x2D then 62
      else if c = 0x5F then 63
      else 0xFF)"

section \<open>Exhaustive checks over bytes\<close>

lemma byte_exhaust: "(\<forall>c::byte. P c) = (\<forall>n \<in> set [0..<256]. P (of_nat n))"
proof
  assume "\<forall>c. P c"
  then show "\<forall>n \<in> set [0..<256]. P (of_nat n)" by blast
next
  assume h: "\<forall>n \<in> set [0..<256]. P (of_nat n)"
  show "\<forall>c. P c"
  proof
    fix c :: byte
    have "unat c < 256" using unsigned_less [of c] by simp
    then have "unat c \<in> set [0..<256]" by simp
    with h have "P (of_nat (unat c))" by blast
    then show "P c" by simp
  qed
qed

section \<open>The hexadecimal digits\<close>

lemma validHexChar_all: "\<forall>c. validHexChar c = is_hex_digit c"
  unfolding byte_exhaust by code_simp

text \<open>
  C9. For every byte \<open>c\<close>, \<open>validHexChar c\<close> is true if and only if \<open>c\<close> is one of the
  characters \<open>'0'\<close>-\<open>'9'\<close> (0x30-0x39), \<open>'A'\<close>-\<open>'F'\<close> (0x41-0x46) or
  \<open>'a'\<close>-\<open>'f'\<close> (0x61-0x66).
\<close>

theorem validHexChar_iff:
  "validHexChar c \<longleftrightarrow>
     (0x30 \<le> c \<and> c \<le> 0x39) \<or> (0x41 \<le> c \<and> c \<le> 0x46) \<or> (0x61 \<le> c \<and> c \<le> 0x66)"
  using validHexChar_all by (simp add: is_hex_digit_def)

section \<open>Base64: strict mode on two-character inputs\<close>

text \<open>
  The padded standard encoding rejects every input whose length is not a multiple of 4
  before it looks at a character, so in strict mode \<open>"AQ"\<close> is rejected just as
  \<open>"AA"\<close> is.
\<close>

theorem strict_std_AQ_corrupt:
  "Encoding_DecodeString (Strict StdEncoding) (bytes ''AQ'') = Some ([], Some ErrCorrupt)"
  by code_simp

text \<open>
  C3, amended. With the standard encoding in strict mode \<open>"AA"\<close> returns \<open>ErrCorrupt\<close>
  (no byte is decoded: its length is not a multiple of 4). \<open>"AQ"\<close> decodes to the single
  byte 0x01 in strict mode with the unpadded standard encoding, and so does its padded
  form \<open>"AQ=="\<close> with the standard encoding. The trailing bits of \<open>"AA"\<close> are zero: the
  unpadded strict encoding accepts it as the byte 0x00, and rejects \<open>"AB"\<close>.
\<close>

theorem strict_two_characters:
  "Encoding_DecodeString (Strict StdEncoding) (bytes ''AA'') = Some ([], Some ErrCorrupt) \<and>
   Encoding_DecodeString (Strict RawStdEncoding) (bytes ''AQ'') = Some ([0x01], None) \<and>
   Encoding_DecodeString (Strict StdEncoding) (bytes ''AQ=='') = Some ([0x01], None) \<and>
   Encoding_DecodeString (Strict RawStdEncoding) (bytes ''AA'') = Some ([0x00], None) \<and>
   Encoding_DecodeString (Strict RawStdEncoding) (bytes ''AB'') = Some ([0x00], Some ErrCorrupt)"
  by code_simp

section \<open>Base64: the reverse lookup of the URL alphabet\<close>

text \<open>
  C2. \<open>urlRevLookup\<close> has the body of \<open>stdRevLookup\<close>: it rejects \<open>'-'\<close> (0x2D) and
  \<open>'_'\<close> (0x5F), the two characters that \<open>urlLookup\<close> produces for 62 and 63, and
  accepts \<open>'+'\<close> (0x2B) and \<open>'/'\<close> (0x2F) instead.
\<close>

theorem urlRevLookup_minus_underscore:
  "urlLookup 62 = 0x2D \<and> urlLookup 63 = 0x5F \<and>
   urlRevLookup 0x2D = 0xFF \<and> urlRevLookup 0x5F = 0xFF \<and>
   urlRevLookup 0x2B = 62 \<and> urlRevLookup 0x2F = 63"
  by code_simp

text \<open>
  C1. The byte 0xFB starts with the 6-bit group 62. \<open>RawURLEncoding\<close> encodes it as
  \<open>"-w"\<close>, and decoding \<open>"-w"\<close> returns \<open>ErrCorrupt\<close> with the byte 0xFF instead of
  0xFB.
\<close>

theorem url_roundtrip_fails:
  "Encoding_EncodeToString RawURLEncoding [0xFB] = Some (bytes ''-w'') \<and>
   Encoding_DecodeString RawURLEncoding (bytes ''-w'') = Some ([0xFF], Some ErrCorrupt)"
  by code_simp

section \<open>Constant-time primitives: results\<close>

lemma ByteEq_pre: "\<forall>z::byte. (ucast (drop_bit 31 ((ucast z :: uint32) - 1)) :: gint) = (if z = 0 then 1 else 0)"
  unfolding byte_exhaust by code_simp

lemma xor_eq_0_iff: "(a::byte) XOR b = 0 \<longleftrightarrow> a = b"
  by (metis xor.right_neutral xor_self_eq xor.assoc)

lemma ConstantTimeByteEq_eq: "ConstantTimeByteEq a b = (if a = b then 1 else 0)"
  using ByteEq_pre [rule_format, of "a XOR b"] by (simp add: ConstantTimeByteEq_def xor_eq_0_iff)

lemma ConstantTimeSelect_1: "ConstantTimeSelect 1 x y = x"
  by (simp add: ConstantTimeSelect_def)

lemma ConstantTimeSelect_0: "ConstantTimeSelect 0 x y = y"
  by (simp add: ConstantTimeSelect_def)

lemma signed_drop_bit_31_and_1: "signed_drop_bit 31 (w::uint32) AND 1 = (if bit w 31 then 1 else 0)"
  apply (rule bit_eqI)
  apply (auto simp: bit_simps)
  subgoal for n by (cases n) auto
  subgoal for n by (cases n) auto
  done

lemma signed_take_bit_31_small:
  "- 2147483648 \<le> k \<Longrightarrow> k < 2147483648 \<Longrightarrow> signed_take_bit 31 (k::int) = k"
  by (rule signed_take_bit_int_eq_self) simp_all

lemma uint_byte_bounds: "0 \<le> uint (a::byte) \<and> uint a < 256"
  using uint_bounded [of a] by simp

lemma sint_ucast_byte: "sint (ucast (a::byte) :: uint32) = uint a"
proof -
  have "signed_take_bit 31 (uint a) = uint a"
    using uint_byte_bounds [of a] by (intro signed_take_bit_31_small) linarith+
  then show ?thesis by (simp add: signed_ucast_eq)
qed

lemma ucast_ucast_byte: "(ucast (ucast (a::byte) :: uint) :: uint32) = ucast a"
  by (rule bit_eqI) (auto simp: bit_simps)

lemma ConstantTimeByteLessOrEq_eq: "ConstantTimeByteLessOrEq a b = (if a \<le> b then 1 else 0)"
proof -
  let ?w = "(ucast a :: uint32) - ucast b - 1"
  have s1: "signed_take_bit 31 (uint a - uint b) = uint a - uint b"
    using uint_byte_bounds [of a] uint_byte_bounds [of b]
    by (intro signed_take_bit_31_small) linarith+
  have s2: "signed_take_bit 31 (uint a - uint b - 1) = uint a - uint b - 1"
    using uint_byte_bounds [of a] uint_byte_bounds [of b]
    by (intro signed_take_bit_31_small) linarith+
  have "sint ((ucast a :: uint32) - ucast b) = uint a - uint b"
    by (simp add: sint_word_diff sint_ucast_byte s1)
  then have "sint ?w = uint a - uint b - 1"
    by (simp add: sint_word_diff [of _ 1] s2)
  then have "bit ?w 31 \<longleftrightarrow> a \<le> b"
    using bit_last_iff [of ?w] by (auto simp add: word_le_def)
  then show ?thesis
    unfolding ConstantTimeByteLessOrEq_def ConstantTimeLessOrEq_def Let_def
    by (simp add: signed_drop_bit_31_and_1 ucast_ucast_byte)
qed

lemma ConstantTimeByteGreater_eq: "ConstantTimeByteGreater a b = (if b < a then 1 else 0)"
  by (auto simp: ConstantTimeByteGreater_def ConstantTimeByteLessOrEq_eq)

section \<open>Big-endian comparison\<close>

lemma foldl_be:
  "foldl (\<lambda>a b. a * 256 + unat (b::byte)) acc xs =
     acc * 256 ^ length xs + foldl (\<lambda>a b. a * 256 + unat b) 0 xs"
proof (induction xs arbitrary: acc)
  case Nil
  then show ?case by simp
next
  case (Cons x xs)
  let ?f = "\<lambda>a (b::byte). a * 256 + unat b"
  have "foldl ?f acc (x # xs) = foldl ?f (acc * 256 + unat x) xs" by simp
  also have "\<dots> = (acc * 256 + unat x) * 256 ^ length xs + foldl ?f 0 xs"
    by (rule Cons.IH)
  also have "\<dots> = acc * 256 ^ length (x # xs) + (unat x * 256 ^ length xs + foldl ?f 0 xs)"
    by (simp add: algebra_simps)
  also have "unat x * 256 ^ length xs + foldl ?f 0 xs = foldl ?f (unat x) xs"
    by (rule Cons.IH [symmetric])
  also have "foldl ?f (unat x) xs = foldl ?f 0 (x # xs)" by simp
  finally show ?case .
qed

lemma be_value_Cons: "be_value (a # x) = unat a * 256 ^ length x + be_value x"
  using foldl_be [of "unat a" x] by (simp add: be_value_def)

lemma be_value_less: "be_value x < 256 ^ length x"
proof (induction x)
  case Nil
  then show ?case by (simp add: be_value_def)
next
  case (Cons a x)
  have "unat a < 256" using unsigned_less [of a] by simp
  then have "unat a * 256 ^ length x + be_value x < (unat a + 1) * 256 ^ length x"
    using Cons.IH by (simp add: algebra_simps)
  also have "\<dots> \<le> 256 * 256 ^ length x"
    using \<open>unat a < 256\<close> by (intro mult_le_mono1) simp
  finally show ?case by (simp add: be_value_Cons)
qed

lemma be_value_Cons_less:
  assumes "length x = length y" "a < b"
  shows "be_value (a # x) < be_value (b # y)"
proof -
  have "unat a + 1 \<le> unat b" using assms(2) by (simp add: word_less_nat_alt)
  then have "(unat a + 1) * 256 ^ length x \<le> unat b * 256 ^ length x"
    by (intro mult_le_mono1)
  moreover have "unat a * 256 ^ length x + be_value x < (unat a + 1) * 256 ^ length x"
    using be_value_less [of x] by (simp add: algebra_simps)
  ultimately show ?thesis
    using assms(1) by (simp add: be_value_Cons)
qed


lemma BigEndianLessOrEq_loop_gt: "BigEndianLessOrEq_loop x y 0 1 = 1"
proof (induction x arbitrary: y)
  case Nil
  then show ?case by simp
next
  case (Cons a x)
  show ?case
  proof (cases y)
    case Nil
    then show ?thesis by simp
  next
    case (Cons b y')
    then show ?thesis
      by (simp add: Cons.IH ConstantTimeByteGreater_eq ConstantTimeSelect_0 ConstantTimeSelect_1)
  qed
qed

lemma BigEndianLessOrEq_loop_neq: "BigEndianLessOrEq_loop x y 1 0 = 0"
proof (induction x arbitrary: y)
  case Nil
  then show ?case by simp
next
  case (Cons a x)
  show ?case
  proof (cases y)
    case Nil
    then show ?thesis by simp
  next
    case (Cons b y')
    then show ?thesis
      by (simp add: Cons.IH ConstantTimeByteEq_eq ConstantTimeSelect_0 ConstantTimeSelect_1)
  qed
qed

lemma BigEndianLessOrEq_loop_eq:
  assumes "length x = length y"
  shows "BigEndianLessOrEq_loop x y 0 0 = (if be_value y < be_value x then 1 else 0)"
  using assms
proof (induction x y rule: list_induct2)
  case Nil
  then show ?case by simp
next
  case (Cons a x b y)
  consider "a < b" | "a = b" | "b < a" by (metis linorder_less_linear)
  then show ?case
  proof cases
    case 1
    then have "be_value (a # x) < be_value (b # y)"
      using Cons.hyps by (intro be_value_Cons_less)
    moreover from 1 have "a \<noteq> b" "\<not> b < a" by auto
    ultimately show ?thesis
      by (simp add: ConstantTimeByteGreater_eq ConstantTimeByteEq_eq
          ConstantTimeSelect_0 BigEndianLessOrEq_loop_neq)
  next
    case 2
    with Cons.hyps show ?thesis
      by (simp add: Cons.IH ConstantTimeByteGreater_eq ConstantTimeByteEq_eq
          ConstantTimeSelect_0 be_value_Cons)
  next
    case 3
    then have "be_value (b # y) < be_value (a # x)"
      using Cons.hyps by (intro be_value_Cons_less) simp_all
    moreover from 3 have "a \<noteq> b" by auto
    ultimately show ?thesis
      using 3
      by (simp add: ConstantTimeByteGreater_eq ConstantTimeSelect_0 ConstantTimeSelect_1
          BigEndianLessOrEq_loop_gt)
  qed
qed

text \<open>
  C6. For byte strings \<open>x\<close> and \<open>y\<close> of equal length,
  \<open>ConstantTimeBigEndianLessOrEq x y\<close> returns 1 if \<open>x\<close>, read as a big-endian unsigned
  integer, is less than or equal to \<open>y\<close> read the same way, and 0 otherwise; if the lengths
  differ it panics.
\<close>

theorem ConstantTimeBigEndianLessOrEq_correct:
  "ConstantTimeBigEndianLessOrEq x y =
     (if length x = length y
      then Some (if be_value x \<le> be_value y then 1 else 0)
      else None)"
  by (auto simp: ConstantTimeBigEndianLessOrEq_def BigEndianLessOrEq_loop_eq)

theorem ConstantTimeBigEndianLessOrEq_witness:
  "ConstantTimeBigEndianLessOrEq [0x01, 0xFF] [0x02, 0x00] = Some 1 \<and>
   ConstantTimeBigEndianLessOrEq [0x02, 0x00] [0x01, 0xFF] = Some 0 \<and>
   ConstantTimeBigEndianLessOrEq [0x02, 0x00] [0x01] = None"
  using ConstantTimeBigEndianLessOrEq_correct [of "[0x01, 0xFF]" "[0x02, 0x00]"]
    ConstantTimeBigEndianLessOrEq_correct [of "[0x02, 0x00]" "[0x01, 0xFF]"]
    ConstantTimeBigEndianLessOrEq_correct [of "[0x02, 0x00]" "[0x01]"]
  by (simp add: be_value_def)

section \<open>Hex encoding\<close>

lemma hex_digit_low:
  "\<forall>v::byte. (ucast (87 + (ucast (v AND 0x0f) :: uint) +
      (drop_bit 8 ((ucast (v AND 0x0f) :: uint) - 10) AND NOT 38)) :: byte) = hex_digit (v AND 0x0f)"
  unfolding byte_exhaust by code_simp

lemma hex_digit_high:
  "\<forall>v::byte. (ucast (87 + (ucast (drop_bit 4 v) :: uint) +
      (drop_bit 8 ((ucast (drop_bit 4 v) :: uint) - 10) AND NOT 38)) :: byte) = hex_digit (drop_bit 4 v)"
  unfolding byte_exhaust by code_simp

lemma list_update_pair:
  assumes "j + 1 < length dst"
  shows "dst[j + 1 := b, j := a] = take j dst @ [a, b] @ drop (j + 2) dst"
proof -
  have "dst[j + 1 := b] = take (j + 1) dst @ b # drop (j + 2) dst"
    using assms by (simp add: upd_conv_take_nth_drop)
  also have "take (j + 1) dst = take j dst @ [dst ! j]"
    using assms by (simp add: take_Suc_conv_app_nth)
  finally have "dst[j + 1 := b] = take j dst @ dst ! j # b # drop (j + 2) dst"
    by simp
  moreover have "length (take j dst) = j" using assms by simp
  ultimately show ?thesis
    by (simp add: list_update_append)
qed

lemma hex_Encode_loop_eq:
  "j + 2 * length src \<le> length dst \<Longrightarrow>
   hex_Encode_loop dst j src = Some (take j dst @ hex_text src @ drop (j + 2 * length src) dst)"
proof (induction src arbitrary: dst j)
  case Nil
  then show ?case by (simp add: hex_text_def)
next
  case (Cons v src)
  let ?a = "hex_digit (drop_bit 4 v)" and ?b = "hex_digit (v AND 0x0f)"
  let ?dst = "dst[j + 1 := ?b, j := ?a]"
  from Cons.prems have j: "j + 1 < length dst" by simp
  have step: "hex_Encode_loop dst j (v # src) = hex_Encode_loop ?dst (j + 2) src"
    using j hex_digit_low [rule_format, of v] hex_digit_high [rule_format, of v]
    by (simp add: Let_def)
  have upd: "?dst = take j dst @ [?a, ?b] @ drop (j + 2) dst"
    using j by (rule list_update_pair)
  have len: "j + 2 + 2 * length src \<le> length ?dst" using Cons.prems by simp
  have t: "take (j + 2) ?dst = take j dst @ [?a, ?b]"
    using j by (subst upd) simp
  have d: "drop (j + 2 + 2 * length src) ?dst = drop (j + 2 * length (v # src)) dst"
    using j by (subst upd) (simp add: add.commute)
  show ?case
    unfolding step Cons.IH [OF len] t d by (simp add: hex_text_def)
qed

text \<open>
  C8. For every \<open>src\<close> and every \<open>dst\<close> of length at least \<open>2 * len(src)\<close>,
  \<open>Encode\<close> of package \<open>hex\<close> writes, for each source byte, the lowercase character
  of its high nibble and then of its low nibble (what the branchless mapping
  \<open>87 + n + (((n - 10) >> 8) & ~38)\<close> computes), leaves the rest of \<open>dst\<close> as it was,
  and returns \<open>2 * len(src)\<close>.
\<close>

theorem hex_Encode_correct:
  "2 * length src \<le> length dst \<Longrightarrow>
   hex_Encode dst src = Some (hex_text src @ drop (2 * length src) dst, 2 * length src)"
  using hex_Encode_loop_eq [of 0 src dst] by (simp add: hex_Encode_def)

theorem hex_Encode_witness:
  "hex_Encode (replicate 9 0) [0x00, 0x01, 0xFE, 0xFF] = Some (bytes ''0001feff'' @ [0], 8)"
  using hex_Encode_correct [of "[0x00, 0x01, 0xFE, 0xFF]" "replicate 9 0"]
  by (simp add: hex_text_def hex_digit_def bytes_def)

section \<open>Hex decoding\<close>

lemma hex_bad_eq_all: "\<forall>c. hex_bad c = (if is_hex_digit c then 0 else 1)"
  unfolding byte_exhaust by code_simp

lemma hex_bad_eq: "hex_bad c = (if is_hex_digit c then 0 else 1)"
  using hex_bad_eq_all by blast

lemma first_invalid_snoc:
  "first_invalid (xs @ [c]) =
     (case first_invalid xs of
        Some k \<Rightarrow> Some k
      | None \<Rightarrow> if is_hex_digit c then None else Some (length xs))"
  by (induction xs) (auto split: option.splits)

lemma first_invalid_less: "first_invalid xs = Some k \<Longrightarrow> k < length xs"
  by (induction xs arbitrary: k) (auto split: if_splits)

lemma int_less_2p63: "n < 2 ^ 63 \<Longrightarrow> int n < 2 ^ 63"
  by (metis of_nat_less_iff of_nat_numeral of_nat_power)

lemma signed_take_bit_63_nat: "int n < 2 ^ 63 \<Longrightarrow> signed_take_bit 63 (int n) = int n"
  by (rule signed_take_bit_int_eq_self) (auto intro: order_trans [of _ 0])

lemma sint_of_nat_small: "n < 2 ^ 63 \<Longrightarrow> sint (of_nat n :: gint) = int n"
  using signed_take_bit_63_nat [OF int_less_2p63] by (simp only: signed_of_nat) simp

lemma hex_Decode_step_eq:
  "hex_Decode_step dst src j (s, m) =
     (let b = m ! (ptr src + j);
          s' = s\<lparr>v_failed := v_failed s OR hex_bad b,
                 v_badIdx := ConstantTimeSelect (v_failed s) (v_badIdx s)
                               (ConstantTimeSelect (hex_bad b) (v_i s) (v_badIdx s)),
                 v_badChar := ConstantTimeSelect (v_failed s) (v_badChar s)
                               (ConstantTimeSelect (hex_bad b) (ucast b) (v_badChar s))\<rparr>
      in if j mod 2 = 0 then Some (s'\<lparr>v_acc := hex_val b * 16\<rparr>, m)
         else if 0 \<le> sint (v_i s) \<and> nat (sint (v_i s)) < len dst
         then Some (s'\<lparr>v_i := v_i s + 1\<rparr>,
                    m[ptr dst + nat (sint (v_i s)) := v_acc s OR hex_val b])
         else None)"
  by (simp add: hex_Decode_step_def hex_bad_def hex_val_def Let_def)

lemma src_bytes_length: "ptr src + len src \<le> length m0 \<Longrightarrow> length (src_bytes m0 src) = len src"
  by (simp add: src_bytes_def)

lemma src_bytes_nth:
  "ptr src + len src \<le> length m0 \<Longrightarrow> k < len src \<Longrightarrow> src_bytes m0 src ! k = m0 ! (ptr src + k)"
  by (simp add: src_bytes_def)

text \<open>The flags after one more source byte.\<close>

lemma Decode_flags_step:
  assumes f: "failed = (if first_invalid xs = None then 0 else (1::gint))"
    and bi: "\<forall>k. first_invalid xs = Some k \<longrightarrow> badIdx = of_nat (k div 2) \<and> badChar = ucast (g k :: byte)"
    and i: "i = of_nat (length xs div 2)"
    and g: "g (length xs) = b"
  shows "failed OR hex_bad b = (if first_invalid (xs @ [b]) = None then 0 else 1)"
    and "\<forall>k. first_invalid (xs @ [b]) = Some k \<longrightarrow>
           ConstantTimeSelect failed badIdx (ConstantTimeSelect (hex_bad b) i badIdx) = of_nat (k div 2) \<and>
           ConstantTimeSelect failed badChar (ConstantTimeSelect (hex_bad b) (ucast b) badChar) = ucast (g k)"
  using assms
  by (auto simp: first_invalid_snoc hex_bad_eq ConstantTimeSelect_0 ConstantTimeSelect_1
      split: option.splits)

lemma Decode_step_inv:
  assumes pre: "Decode_pre m0 dst src"
    and inv: "Decode_inv m0 dst src j (s, m)"
    and j: "j < len src"
  shows "\<exists>s' m'. hex_Decode_step dst src j (s, m) = Some (s', m') \<and>
                 Decode_inv m0 dst src (j + 1) (s', m')"
proof -
  let ?bs = "src_bytes m0 src"
  from pre have src_in: "ptr src + len src \<le> length m0"
    and dst_in: "ptr dst + len dst \<le> length m0"
    and room: "len src div 2 \<le> len dst"
    and sep: "ptr dst \<le> ptr src \<or> ptr src + len src \<le> ptr dst"
    and small: "len src < 2 ^ 63"
    by (simp_all add: Decode_pre_def)
  have len_bs: "length ?bs = len src" using src_in by (rule src_bytes_length)
  from inv have lm: "length m = length m0"
    and mem: "\<forall>a < length m0. m ! a = (if ptr dst \<le> a \<and> a < ptr dst + j div 2
                     then hex_out ?bs (a - ptr dst) else m0 ! a)"
    and vi: "v_i s = of_nat (j div 2)"
    and acc: "odd j \<longrightarrow> v_acc s = hex_val (?bs ! (j - 1)) * 16"
    and fl: "v_failed s = (if first_invalid (take j ?bs) = None then 0 else 1)"
    and bi: "\<forall>k. first_invalid (take j ?bs) = Some k \<longrightarrow>
              v_badIdx s = of_nat (k div 2) \<and> v_badChar s = ucast (?bs ! k)"
    by (simp_all add: Decode_inv_def Let_def)
  define b where "b = ?bs ! j"
  have "ptr src + j < length m0" using j src_in by simp
  moreover have "\<not> (ptr dst \<le> ptr src + j \<and> ptr src + j < ptr dst + j div 2)"
    using sep j by auto
  ultimately have "m ! (ptr src + j) = m0 ! (ptr src + j)" using mem by auto
  then have read: "m ! (ptr src + j) = b"
    using src_bytes_nth [OF src_in j] by (simp add: b_def)
  have tk: "take (j + 1) ?bs = take j ?bs @ [b]"
    using j len_bs by (simp add: take_Suc_conv_app_nth b_def)
  have ltk: "length (take j ?bs) = j" using j len_bs by simp
  define s' where "s' = s\<lparr>v_failed := v_failed s OR hex_bad b,
                 v_badIdx := ConstantTimeSelect (v_failed s) (v_badIdx s)
                               (ConstantTimeSelect (hex_bad b) (v_i s) (v_badIdx s)),
                 v_badChar := ConstantTimeSelect (v_failed s) (v_badChar s)
                               (ConstantTimeSelect (hex_bad b) (ucast b) (v_badChar s))\<rparr>"
  have i0: "v_i s = of_nat (length (take j ?bs) div 2)" by (simp only: ltk vi)
  have g0: "?bs ! length (take j ?bs) = b" by (simp only: ltk b_def)
  have fl': "v_failed s' = (if first_invalid (take (j + 1) ?bs) = None then 0 else 1)"
    unfolding tk s'_def using Decode_flags_step(1) [OF fl bi i0 g0] by simp
  have bi': "\<forall>k. first_invalid (take (j + 1) ?bs) = Some k \<longrightarrow>
              v_badIdx s' = of_nat (k div 2) \<and> v_badChar s' = ucast (?bs ! k)"
    unfolding tk s'_def using Decode_flags_step(2) [OF fl bi i0 g0] by simp
  have step: "hex_Decode_step dst src j (s, m) =
      (if j mod 2 = 0 then Some (s'\<lparr>v_acc := hex_val b * 16\<rparr>, m)
         else if 0 \<le> sint (v_i s) \<and> nat (sint (v_i s)) < len dst
         then Some (s'\<lparr>v_i := v_i s + 1\<rparr>,
                    m[ptr dst + nat (sint (v_i s)) := v_acc s OR hex_val b])
         else None)"
    by (simp add: hex_Decode_step_eq read s'_def Let_def)
  show ?thesis
  proof (cases "even j")
    case True
    then have d: "(j + 1) div 2 = j div 2" by auto
    have "Decode_inv m0 dst src (j + 1) (s'\<lparr>v_acc := hex_val b * 16\<rparr>, m)"
      using True lm mem vi fl' bi'
      by (simp add: Decode_inv_def Let_def d b_def s'_def)
    with True step show ?thesis by (simp add: even_iff_mod_2_eq_zero)
  next
    case False
    then have d: "(j + 1) div 2 = j div 2 + 1" "Suc j div 2 = Suc (j div 2)" by presburger+
    from False have j1: "2 * (j div 2) = j - 1" and j2: "2 * (j div 2) + 1 = j"
      by presburger+
    have h: "j div 2 < len dst" using room j False by presburger
    have "j div 2 < 2 ^ 63" using small j by simp
    then have si: "sint (v_i s) = int (j div 2)"
      by (simp add: vi sint_of_nat_small)
    have out: "v_acc s OR hex_val b = hex_out ?bs (j div 2)"
      using acc False by (simp add: hex_out_def j1 j2 b_def)
    let ?m = "m[ptr dst + j div 2 := hex_out ?bs (j div 2)]"
    have st: "hex_Decode_step dst src j (s, m) = Some (s'\<lparr>v_i := v_i s + 1\<rparr>, ?m)"
      using False h by (simp add: step si out odd_iff_mod_2_eq_one)
    have w: "ptr dst + j div 2 < length m" using h dst_in lm by simp
    have mem': "\<forall>a < length m0. ?m ! a = (if ptr dst \<le> a \<and> a < ptr dst + (j + 1) div 2
                     then hex_out ?bs (a - ptr dst) else m0 ! a)"
    proof (intro allI impI)
      fix a assume a: "a < length m0"
      show "?m ! a = (if ptr dst \<le> a \<and> a < ptr dst + (j + 1) div 2
                     then hex_out ?bs (a - ptr dst) else m0 ! a)"
      proof (cases "a = ptr dst + j div 2")
        case True
        then show ?thesis using w by (simp add: d)
      next
        case ne: False
        then have "?m ! a = m ! a" by simp
        also have "\<dots> = (if ptr dst \<le> a \<and> a < ptr dst + j div 2
                     then hex_out ?bs (a - ptr dst) else m0 ! a)"
          using mem a by simp
        finally show ?thesis using ne by (auto simp: d)
      qed
    qed
    have "Decode_inv m0 dst src (j + 1) (s'\<lparr>v_i := v_i s + 1\<rparr>, ?m)"
      using False lm mem' fl' bi' vi
      by (simp add: Decode_inv_def Let_def d s'_def)
    with st show ?thesis by blast
  qed
qed


lemma Decode_loop_inv:
  assumes pre: "Decode_pre m0 dst src"
  shows "Decode_inv m0 dst src j (s, m) \<Longrightarrow> j \<le> len src \<Longrightarrow>
         \<exists>s' m'. hex_Decode_loop dst src j (s, m) = Some (s', m') \<and>
                 Decode_inv m0 dst src (len src) (s', m')"
proof (induction "len src - j" arbitrary: j s m)
  case 0
  then have "j = len src" by simp
  with "0.prems" show ?case by (simp add: hex_Decode_loop.simps)
next
  case (Suc n)
  then have j: "j < len src" by simp
  from Decode_step_inv [OF pre Suc.prems(1) j]
  obtain s1 m1 where st: "hex_Decode_step dst src j (s, m) = Some (s1, m1)"
    and inv1: "Decode_inv m0 dst src (j + 1) (s1, m1)" by blast
  have "n = len src - (j + 1)" using Suc.hyps(2) by simp
  from Suc.hyps(1) [OF this inv1] j
  obtain s' m' where "hex_Decode_loop dst src (j + 1) (s1, m1) = Some (s', m')"
    and "Decode_inv m0 dst src (len src) (s', m')" by auto
  with st j show ?case by (subst hex_Decode_loop.simps) simp
qed

lemma Decode_inv_init:
  "Decode_inv m0 dst src 0
     (\<lparr>v_failed = 0, v_badIdx = 0, v_badChar = 0, v_acc = 0, v_i = 0\<rparr>, m0)"
  by (auto simp: Decode_inv_def)

lemma ucast_ucast_byte_id: "(ucast (ucast (b::byte) :: gint) :: byte) = b"
  by (rule bit_eqI) (auto simp: bit_simps)

lemma hex_Decode_full:
  assumes pre: "Decode_pre m0 dst src"
  shows "\<exists>m'. hex_Decode m0 dst src =
                 Some (m', of_nat (hex_count (src_bytes m0 src)), hex_error (src_bytes m0 src)) \<and>
               length m' = length m0 \<and>
               (\<forall>a < length m0.
                  m' ! a = (if ptr dst \<le> a \<and> a < ptr dst + len src div 2
                            then hex_out (src_bytes m0 src) (a - ptr dst) else m0 ! a))"
proof -
  let ?bs = "src_bytes m0 src"
  from pre have len_bs: "length ?bs = len src"
    by (simp add: Decode_pre_def src_bytes_length)
  from Decode_loop_inv [OF pre Decode_inv_init]
  obtain s' m' where loop: "hex_Decode_loop dst src 0
       (\<lparr>v_failed = 0, v_badIdx = 0, v_badChar = 0, v_acc = 0, v_i = 0\<rparr>, m0) = Some (s', m')"
    and inv: "Decode_inv m0 dst src (len src) (s', m')" by auto
  from inv len_bs have lm: "length m' = length m0"
    and mem: "\<forall>a < length m0. m' ! a = (if ptr dst \<le> a \<and> a < ptr dst + len src div 2
                     then hex_out ?bs (a - ptr dst) else m0 ! a)"
    and vi: "v_i s' = of_nat (len src div 2)"
    and fl: "v_failed s' = (if first_invalid ?bs = None then 0 else 1)"
    and bi: "\<forall>k. first_invalid ?bs = Some k \<longrightarrow>
              v_badIdx s' = of_nat (k div 2) \<and> v_badChar s' = ucast (?bs ! k)"
    by (simp_all add: Decode_inv_def Let_def)
  have "hex_Decode m0 dst src = Some (m', of_nat (hex_count ?bs), hex_error ?bs)"
  proof (cases "first_invalid ?bs")
    case None
    with fl vi len_bs show ?thesis
      by (simp add: hex_Decode_def loop hex_count_def hex_error_def odd_iff_mod_2_eq_one)
  next
    case (Some k)
    with fl bi show ?thesis
      by (simp add: hex_Decode_def loop hex_count_def hex_error_def ucast_ucast_byte_id)
  qed
  with lm mem show ?thesis by blast
qed


text \<open>
  The values that the loop computes are those of the digits: \<open>val\<close> is the value of a
  hexadecimal digit and 0 for any other byte, so the byte stored at destination index
  \<open>t\<close> is made of the values of the source bytes \<open>2t\<close> and \<open>2t + 1\<close>.
\<close>

lemma hex_val_all: "\<forall>c. hex_val c = hex_digit_value c"
  unfolding byte_exhaust by code_simp

lemma hex_val_value: "hex_val c = hex_digit_value c"
  using hex_val_all by blast

lemma hex_out_value:
  "hex_out bs t = hex_digit_value (bs ! (2 * t)) * 16 OR hex_digit_value (bs ! (2 * t + 1))"
  by (simp add: hex_out_def hex_val_value)

lemma less_13_cases:
  "a < 13 \<Longrightarrow> a = 0 \<or> a = 1 \<or> a = 2 \<or> a = 3 \<or> a = 4 \<or> a = 5 \<or> a = 6 \<or> a = 7 \<or> a = 8 \<or>
     a = 9 \<or> a = 10 \<or> a = 11 \<or> a = (12::nat)"
  by arith

text \<open>
  C5. \<open>Decode\<close> of package \<open>hex\<close> gives an invalid character precedence over the
  length: if \<open>src\<close> has a byte that is not a hexadecimal digit, it returns the
  destination index at the first such byte (half its source index) and
  \<open>InvalidByteError\<close> of that byte; otherwise, if \<open>len(src)\<close> is odd, the number of
  bytes written and \<open>ErrLength\<close>; otherwise the number of bytes written and no error.
  In every case it writes \<open>len(src) / 2\<close> bytes, at the start of \<open>dst\<close>: the byte at
  destination index \<open>t\<close> is \<open>hex_out\<close> of the source bytes \<open>2t\<close> and \<open>2t + 1\<close> as they
  were at the call, and every other byte of the store is left as it was. So without
  an invalid character the number returned is the number of bytes written, a trailing
  odd character being left out, and with one it is the number of bytes written before
  the error.
  The destination has room for \<open>len(src) / 2\<close> bytes and either starts at or before
  \<open>src\<close> or lies after it.
\<close>

theorem hex_Decode_precedence:
  assumes "ptr src + len src \<le> length m" and "ptr dst + len dst \<le> length m"
    and "len src div 2 \<le> len dst"
    and "ptr dst \<le> ptr src \<or> ptr src + len src \<le> ptr dst"
    and "len src < 2 ^ 63"
  shows "\<exists>m'. hex_Decode m dst src =
           Some (m',
             case first_invalid (src_bytes m src) of
               Some k \<Rightarrow> (of_nat (k div 2), Some (InvalidByteError (src_bytes m src ! k)))
             | None \<Rightarrow> (of_nat (len src div 2),
                          if odd (len src) then Some ErrLength else None)) \<and>
           length m' = length m \<and>
           (\<forall>a < length m.
              m' ! a = (if ptr dst \<le> a \<and> a < ptr dst + len src div 2
                        then hex_out (src_bytes m src) (a - ptr dst) else m ! a))"
proof -
  have pre: "Decode_pre m dst src" using assms by (simp add: Decode_pre_def)
  then have "length (src_bytes m src) = len src"
    by (simp add: Decode_pre_def src_bytes_length)
  with hex_Decode_full [OF pre] show ?thesis
    by (auto simp: hex_count_def hex_error_def split: option.splits)
qed

theorem hex_Decode_precedence_witness:
  "hex_Decode (bytes ''0001fGeF?'' @ replicate 4 0) \<lparr>ptr = 9, len = 4\<rparr> \<lparr>ptr = 0, len = 9\<rparr> =
     Some (bytes ''0001fGeF?'' @ [0x00, 0x01, 0xF0, 0xEF], 2, Some (InvalidByteError 0x47)) \<and>
   hex_Decode (bytes ''0001feF'') \<lparr>ptr = 0, len = 7\<rparr> \<lparr>ptr = 0, len = 7\<rparr> =
     Some ([0x00, 0x01, 0xFE] @ bytes ''1feF'', 3, Some ErrLength)"
proof
  let ?s = "bytes ''0001fGeF?''"
  let ?m = "?s @ replicate 4 0"
  let ?src = "\<lparr>ptr = 0, len = 9\<rparr>" and ?dst = "\<lparr>ptr = 9, len = 4\<rparr>"
  have sb: "src_bytes ?m ?src = ?s" by (simp add: src_bytes_def bytes_def)
  have fi: "first_invalid ?s = Some 5" by (simp add: bytes_def is_hex_digit_def)
  have lm: "length ?m = 13" by (simp add: bytes_def)
  from hex_Decode_precedence [of ?src ?m ?dst]
  obtain m' where d: "hex_Decode ?m ?dst ?src = Some (m', 2, Some (InvalidByteError (?s ! 5)))"
    and l: "length m' = 13"
    and c: "\<forall>a < 13. m' ! a = (if 9 \<le> a \<and> a < 13 then hex_out ?s (a - 9) else ?m ! a)"
    unfolding sb fi lm by auto
  have h: "hex_out [48, 48, 48, 49, 102, 71, 101, 70, 63] 0 = 0"
    "hex_out [48, 48, 48, 49, 102, 71, 101, 70, 63] (Suc 0) = 1"
    "hex_out [48, 48, 48, 49, 102, 71, 101, 70, 63] 2 = 240"
    "hex_out [48, 48, 48, 49, 102, 71, 101, 70, 63] 3 = 239"
    by code_simp+
  have "m' = ?s @ [0x00, 0x01, 0xF0, 0xEF]"
  proof (rule nth_equalityI)
    show "length m' = length (?s @ [0x00, 0x01, 0xF0, 0xEF])"
      by (simp add: l bytes_def)
  next
    fix a assume "a < length m'"
    then have "a < 13" by (simp add: l)
    from less_13_cases [OF this] c
    show "m' ! a = (?s @ [0x00, 0x01, 0xF0, 0xEF]) ! a"
      by (elim disjE) (simp_all add: h bytes_def)
  qed
  with d show "hex_Decode ?m ?dst ?src =
      Some (?s @ [0x00, 0x01, 0xF0, 0xEF], 2, Some (InvalidByteError 0x47))"
    by (simp add: bytes_def)
next
  let ?m = "bytes ''0001feF''"
  let ?src = "\<lparr>ptr = 0, len = 7\<rparr>"
  have sb: "src_bytes ?m ?src = ?m" by (simp add: src_bytes_def bytes_def)
  have fi: "first_invalid ?m = None" by (simp add: bytes_def is_hex_digit_def)
  have lm: "length ?m = 7" by (simp add: bytes_def)
  from hex_Decode_precedence [of ?src ?m ?src]
  obtain m' where d: "hex_Decode ?m ?src ?src = Some (m', 3, Some ErrLength)"
    and l: "length m' = 7"
    and c: "\<forall>a < 7. m' ! a = (if a < 3 then hex_out ?m a else ?m ! a)"
    unfolding sb fi lm by auto
  have h: "hex_out [48, 48, 48, 49, 102, 101, 70] 0 = 0"
    "hex_out [48, 48, 48, 49, 102, 101, 70] (Suc 0) = 1"
    "hex_out [48, 48, 48, 49, 102, 101, 70] 2 = 254"
    by code_simp+
  have "m' = [0x00, 0x01, 0xFE] @ bytes ''1feF''"
  proof (rule nth_equalityI)
    show "length m' = length ([0x00, 0x01, 0xFE] @ bytes ''1feF'')"
      by (simp add: l bytes_def)
  next
    fix a assume "a < length m'"
    then have a7: "a < 7" by (simp add: l)
    then have "a < 13" by simp
    from less_13_cases [OF this] c a7
    show "m' ! a = ([0x00, 0x01, 0xFE] @ bytes ''1feF'') ! a"
      by (elim disjE) (simp_all add: h bytes_def)
  qed
  with d show "hex_Decode ?m ?src ?src = Some ([0x00, 0x01, 0xFE] @ bytes ''1feF'', 3, Some ErrLength)"
    by simp
qed

lemma hex_count_le: "hex_count bs \<le> length bs div 2"
  by (auto simp: hex_count_def split: option.splits dest!: first_invalid_less intro: div_le_mono)

text \<open>
  C10. \<open>DecodeString(s)\<close> decodes in place, with the buffer of \<open>s\<close> as source and as
  destination of \<open>Decode\<close>. It returns the same bytes and the same error as decoding
  \<open>s\<close> into a separate destination buffer \<open>d\<close> with room for \<open>len(s) / 2\<close> bytes,
  and it does not panic.
\<close>

theorem hex_DecodeString_in_place:
  assumes room: "length s div 2 \<le> length d" and small: "length s < 2 ^ 63"
  shows "hex_DecodeString s = hex_Decode_separate d s \<and>
         (\<exists>bs err. hex_DecodeString s = Some (bs, err))"
proof -
  let ?src = "\<lparr>ptr = 0, len = length s\<rparr>"
  let ?dst = "\<lparr>ptr = length s, len = length d\<rparr>"
  let ?q = "hex_count s"
  have q: "?q \<le> length s div 2" by (rule hex_count_le)
  then have "?q < 2 ^ 63" using small by simp
  then have sq: "sint (of_nat ?q :: gint) = int ?q" by (rule sint_of_nat_small)
  have sb1: "src_bytes s ?src = s" and sb2: "src_bytes (s @ d) ?src = s"
    by (simp_all add: src_bytes_def)
  have "Decode_pre s ?src ?src" using small by (simp add: Decode_pre_def)
  from hex_Decode_full [OF this] obtain m1
    where d1: "hex_Decode s ?src ?src = Some (m1, of_nat ?q, hex_error s)"
      and l1: "length m1 = length s"
      and c1: "\<forall>a < length s. m1 ! a = (if a < length s div 2 then hex_out s a else s ! a)"
    by (auto simp: sb1)
  have "Decode_pre (s @ d) ?dst ?src" using small room by (simp add: Decode_pre_def)
  from hex_Decode_full [OF this] obtain m2
    where d2: "hex_Decode (s @ d) ?dst ?src = Some (m2, of_nat ?q, hex_error s)"
      and l2: "length m2 = length s + length d"
      and c2: "\<forall>a < length s + length d.
                 m2 ! a = (if length s \<le> a \<and> a < length s + length s div 2
                           then hex_out s (a - length s) else (s @ d) ! a)"
    by (auto simp: sb2)
  have t1: "take ?q m1 = map (hex_out s) [0..<?q]"
    using q l1 c1 by (intro nth_equalityI) auto
  have t2: "take ?q (drop (length s) m2) = map (hex_out s) [0..<?q]"
    using q l2 c2 room by (intro nth_equalityI) auto
  have r1: "hex_DecodeString s = Some (map (hex_out s) [0..<?q], hex_error s)"
    using q by (simp add: hex_DecodeString_def d1 sq t1)
  have r2: "hex_Decode_separate d s = Some (map (hex_out s) [0..<?q], hex_error s)"
    using q room by (simp add: hex_Decode_separate_def d2 sq t2)
  from r1 r2 show ?thesis by simp
qed

theorem hex_DecodeString_in_place_witness:
  "hex_DecodeString (bytes ''0001feFF'') = hex_Decode_separate (replicate 4 0) (bytes ''0001feFF'') \<and>
   (\<exists>bs err. hex_DecodeString (bytes ''0001feFF'') = Some (bs, err))"
proof -
  have "length (bytes ''0001feFF'') div 2 \<le> length (replicate 4 0 :: byte list)"
    by (simp add: bytes_def)
  moreover have "length (bytes ''0001feFF'') < 2 ^ 63"
    by (simp add: bytes_def)
  ultimately show ?thesis by (rule hex_DecodeString_in_place)
qed

section \<open>Base64 encoding: what is written\<close>

lemma write_at_Nil: "write_at buf off [] = buf"
  by (simp add: write_at_def)

lemma write_at_length: "off + length xs \<le> length buf \<Longrightarrow> length (write_at buf off xs) = length buf"
  by (simp add: write_at_def)

lemma write_at_nth:
  "off + length xs \<le> length buf \<Longrightarrow> i < length buf \<Longrightarrow>
   write_at buf off xs ! i = (if off \<le> i \<and> i < off + length xs then xs ! (i - off) else buf ! i)"
  by (auto simp: write_at_def nth_append)

lemma write_at_append:
  assumes "off + length xs + length ys \<le> length buf"
  shows "write_at (write_at buf off xs) (off + length xs) ys = write_at buf off (xs @ ys)"
  using assms by (simp add: write_at_def ac_simps)

lemma PutUint64_write_at:
  assumes "off + 8 \<le> length buf"
  shows "LittleEndian_PutUint64 buf off v = write_at buf off (le_bytes64 v)"
proof (rule nth_equalityI)
  show "length (LittleEndian_PutUint64 buf off v) = length (write_at buf off (le_bytes64 v))"
    using assms by (simp add: LittleEndian_PutUint64_def write_at_length le_bytes64_def)
next
  fix i assume "i < length (LittleEndian_PutUint64 buf off v)"
  then have i: "i < length buf" by (simp add: LittleEndian_PutUint64_def)
  have l: "off + length (le_bytes64 v) \<le> length buf" using assms by (simp add: le_bytes64_def)
  consider "i < off" | "i = off" | "i = off + 1" | "i = off + 2" | "i = off + 3" | "i = off + 4"
    | "i = off + 5" | "i = off + 6" | "i = off + 7" | "off + 8 \<le> i" by linarith
  then show "LittleEndian_PutUint64 buf off v ! i = write_at buf off (le_bytes64 v) ! i"
    using i assms
    by cases (simp_all add: write_at_nth LittleEndian_PutUint64_def le_bytes64_def)
qed

lemma PutUint32_write_at:
  assumes "off + 4 \<le> length buf"
  shows "LittleEndian_PutUint32 buf off v = write_at buf off (le_bytes32 v)"
proof (rule nth_equalityI)
  show "length (LittleEndian_PutUint32 buf off v) = length (write_at buf off (le_bytes32 v))"
    using assms by (simp add: LittleEndian_PutUint32_def write_at_length le_bytes32_def)
next
  fix i assume "i < length (LittleEndian_PutUint32 buf off v)"
  then have i: "i < length buf" by (simp add: LittleEndian_PutUint32_def)
  have l: "off + length (le_bytes32 v) \<le> length buf" using assms by (simp add: le_bytes32_def)
  consider "i < off" | "i = off" | "i = off + 1" | "i = off + 2" | "i = off + 3"
    | "off + 4 \<le> i" by linarith
  then show "LittleEndian_PutUint32 buf off v ! i = write_at buf off (le_bytes32 v) ! i"
    using i assms
    by cases (simp_all add: write_at_nth LittleEndian_PutUint32_def le_bytes32_def)
qed


lemma encode_loop6_eq:
  "off + length (enc6_out sw6 src) \<le> length buf \<Longrightarrow>
   encode_loop6 sw6 buf off src =
     (write_at buf off (enc6_out sw6 src), off + length (enc6_out sw6 src), enc6_rest src)"
proof (induction sw6 src arbitrary: buf off rule: enc6_out.induct)
  case (1 sw6 src)
  show ?case
  proof (cases "8 \<le> length src")
    case True
    define x where "x = le_bytes64 (sw6 (BigEndian_Uint64 src))"
    let ?out = "enc6_out sw6 (drop 6 src)"
    have out: "enc6_out sw6 src = x @ ?out"
      using True by (simp add: enc6_out.simps [of sw6 src] x_def)
    have lx: "length x = 8" by (simp add: le_bytes64_def x_def)
    from "1.prems" have room: "off + 8 + length ?out \<le> length buf"
      by (simp add: out lx)
    then have r8: "off + 8 \<le> length buf" "8 \<le> length buf - off" by simp_all
    let ?buf = "write_at buf off x"
    have lb: "length ?buf = length buf" using r8 by (simp add: write_at_length lx)
    have step: "encode_loop6 sw6 buf off src = encode_loop6 sw6 ?buf (off + 8) (drop 6 src)"
      using True r8
      by (simp add: encode_loop6.simps [of sw6 buf off src] PutUint64_write_at x_def)
    have "encode_loop6 sw6 ?buf (off + 8) (drop 6 src) =
            (write_at ?buf (off + 8) ?out, off + 8 + length ?out, enc6_rest (drop 6 src))"
      using room by (intro "1.IH" [OF True]) (simp add: lb)
    moreover have "write_at ?buf (off + 8) ?out = write_at buf off (x @ ?out)"
      using write_at_append [of off x ?out buf] room by (simp add: lx)
    moreover have "enc6_rest src = enc6_rest (drop 6 src)"
      using True by (simp add: enc6_rest.simps [of src])
    ultimately show ?thesis by (simp add: step out lx)
  next
    case False
    then show ?thesis
      by (simp add: enc6_out.simps [of sw6 src] enc6_rest.simps [of src]
          encode_loop6.simps [of sw6 buf off src] write_at_Nil)
  qed
qed

lemma encode_loop3_eq:
  "off + length (enc3_out sw3 src) \<le> length buf \<Longrightarrow>
   encode_loop3 sw3 buf off src =
     Some (write_at buf off (enc3_out sw3 src), off + length (enc3_out sw3 src), enc3_rest src)"
proof (induction sw3 src arbitrary: buf off rule: enc3_out.induct)
  case (1 sw3 src)
  show ?case
  proof (cases "3 \<le> length src")
    case True
    define x where "x = le_bytes32
             (sw3 (push_bit 8 (push_bit 16 (ucast (src ! 0) :: uint32) OR
                               push_bit 8 (ucast (src ! 1)) OR ucast (src ! 2))))"
    let ?out = "enc3_out sw3 (drop 3 src)"
    have out: "enc3_out sw3 src = x @ ?out"
      using True by (simp add: enc3_out.simps [of sw3 src] x_def)
    have lx: "length x = 4" by (simp add: le_bytes32_def x_def)
    from "1.prems" have room: "off + 4 + length ?out \<le> length buf"
      by (simp add: out lx)
    then have r4: "off + 4 \<le> length buf" "4 \<le> length buf - off" by simp_all
    let ?buf = "write_at buf off x"
    have lb: "length ?buf = length buf" using r4 by (simp add: write_at_length lx)
    have step: "encode_loop3 sw3 buf off src = encode_loop3 sw3 ?buf (off + 4) (drop 3 src)"
      using True r4
      by (simp add: encode_loop3.simps [of sw3 buf off src] PutUint32_write_at Let_def x_def)
    have "encode_loop3 sw3 ?buf (off + 4) (drop 3 src) =
            Some (write_at ?buf (off + 4) ?out, off + 4 + length ?out, enc3_rest (drop 3 src))"
      using room by (intro "1.IH" [OF True]) (simp add: lb)
    moreover have "write_at ?buf (off + 4) ?out = write_at buf off (x @ ?out)"
      using write_at_append [of off x ?out buf] room by (simp add: lx)
    moreover have "enc3_rest src = enc3_rest (drop 3 src)"
      using True by (simp add: enc3_rest.simps [of src])
    ultimately show ?thesis by (simp add: step out lx)
  next
    case False
    then show ?thesis
      by (simp add: enc3_out.simps [of sw3 src] enc3_rest.simps [of src]
          encode_loop3.simps [of sw3 buf off src] write_at_Nil)
  qed
qed

lemma update4_write_at:
  assumes "off + 4 \<le> length buf"
  shows "buf[off + 2 := c, off + 1 := b, off := a, off + 3 := d] = write_at buf off [a, b, c, d]"
    and "buf[off + 1 := b, off := a, off + 3 := d, off + 2 := c] = write_at buf off [a, b, c, d]"
proof -
  have eq: "\<And>xs. length xs = length buf \<Longrightarrow>
      (\<And>i. i < length buf \<Longrightarrow> xs ! i = write_at buf off [a, b, c, d] ! i) \<Longrightarrow>
      xs = write_at buf off [a, b, c, d]"
    using assms by (intro nth_equalityI) (simp_all add: write_at_length)
  have cs: "\<And>i. i < off \<or> i = off \<or> i = off + 1 \<or> i = off + 2 \<or> i = off + 3 \<or> off + 4 \<le> i"
    by linarith
  show "buf[off + 2 := c, off + 1 := b, off := a, off + 3 := d] = write_at buf off [a, b, c, d]"
  proof (rule eq)
    fix i assume "i < length buf"
    with assms cs [of i]
    show "buf[off + 2 := c, off + 1 := b, off := a, off + 3 := d] ! i = write_at buf off [a, b, c, d] ! i"
      by (elim disjE) (simp_all add: write_at_nth)
  qed simp
  show "buf[off + 1 := b, off := a, off + 3 := d, off + 2 := c] = write_at buf off [a, b, c, d]"
  proof (rule eq)
    fix i assume "i < length buf"
    with assms cs [of i]
    show "buf[off + 1 := b, off := a, off + 3 := d, off + 2 := c] ! i = write_at buf off [a, b, c, d] ! i"
      by (elim disjE) (simp_all add: write_at_nth)
  qed simp
qed

lemma update3_write_at:
  assumes "off + 3 \<le> length buf"
  shows "buf[off + 2 := c, off + 1 := b, off := a] = write_at buf off [a, b, c]"
proof (rule nth_equalityI)
  show "length (buf[off + 2 := c, off + 1 := b, off := a]) = length (write_at buf off [a, b, c])"
    using assms by (simp add: write_at_length)
next
  fix i assume "i < length (buf[off + 2 := c, off + 1 := b, off := a])"
  then have i: "i < length buf" by simp
  have "i < off \<or> i = off \<or> i = off + 1 \<or> i = off + 2 \<or> off + 3 \<le> i" by linarith
  with assms i show "buf[off + 2 := c, off + 1 := b, off := a] ! i = write_at buf off [a, b, c] ! i"
    by (elim disjE) (simp_all add: write_at_nth)
qed

lemma update2_write_at:
  assumes "off + 2 \<le> length buf"
  shows "buf[off + 1 := b, off := a] = write_at buf off [a, b]"
proof (rule nth_equalityI)
  show "length (buf[off + 1 := b, off := a]) = length (write_at buf off [a, b])"
    using assms by (simp add: write_at_length)
next
  fix i assume "i < length (buf[off + 1 := b, off := a])"
  then have i: "i < length buf" by simp
  have "i < off \<or> i = off \<or> i = off + 1 \<or> off + 2 \<le> i" by linarith
  with assms i show "buf[off + 1 := b, off := a] ! i = write_at buf off [a, b] ! i"
    by (elim disjE) (simp_all add: write_at_nth)
qed

lemma encode_tail_eq:
  assumes "off + length (tail_out lk pad src) \<le> length buf"
  shows "encode_tail lk pad buf off src = Some (write_at buf off (tail_out lk pad src))"
proof -
  define v2 where "v2 = push_bit 16 (ucast (src ! 0) :: uint) OR push_bit 8 (ucast (src ! 1))"
  define v1 where "v1 = push_bit 16 (ucast (src ! 0) :: uint)"
  define a2 b2 c2 where "a2 = lk (drop_bit 18 v2 AND 0x3f)" and "b2 = lk (drop_bit 12 v2 AND 0x3f)"
    and "c2 = lk (drop_bit 6 v2 AND 0x3f)"
  define a1 b1 where "a1 = lk (drop_bit 18 v1 AND 0x3f)" and "b1 = lk (drop_bit 12 v1 AND 0x3f)"
  note defs = v2_def v1_def a2_def b2_def c2_def a1_def b1_def
  consider "length src = 2" "pad \<noteq> NoPadding" | "length src = 2" "pad = NoPadding"
    | "length src = 1" "pad \<noteq> NoPadding" | "length src = 1" "pad = NoPadding"
    | "length src \<noteq> 2" "length src \<noteq> 1" by blast
  then show ?thesis
  proof cases
    case 1
    then have t: "tail_out lk pad src = [a2, b2, c2, ucast pad]"
      by (simp add: tail_out_def Let_def defs)
    with assms have room: "off + 4 \<le> length buf" by simp
    have "encode_tail lk pad buf off src =
            Some (buf[off + 2 := c2, off + 1 := b2, off := a2, off + 3 := ucast pad])"
      using 1 room by (simp add: encode_tail_def Let_def store_def defs)
    then show ?thesis by (simp only: t update4_write_at(1) [OF room])
  next
    case 2
    then have t: "tail_out lk pad src = [a2, b2, c2]"
      by (simp add: tail_out_def Let_def defs)
    with assms have room: "off + 3 \<le> length buf" by simp
    have "encode_tail lk pad buf off src = Some (buf[off + 2 := c2, off + 1 := b2, off := a2])"
      using 2 room by (simp add: encode_tail_def Let_def store_def defs)
    then show ?thesis by (simp only: t update3_write_at [OF room])
  next
    case 3
    then have t: "tail_out lk pad src = [a1, b1, ucast pad, ucast pad]"
      by (simp add: tail_out_def Let_def defs)
    with assms have room: "off + 4 \<le> length buf" by simp
    have "encode_tail lk pad buf off src =
            Some (buf[off + 1 := b1, off := a1, off + 3 := ucast pad, off + 2 := ucast pad])"
      using 3 room by (simp add: encode_tail_def Let_def store_def defs)
    then show ?thesis by (simp only: t update4_write_at(2) [OF room])
  next
    case 4
    then have t: "tail_out lk pad src = [a1, b1]"
      by (simp add: tail_out_def Let_def defs)
    with assms have room: "off + 2 \<le> length buf" by simp
    have "encode_tail lk pad buf off src = Some (buf[off + 1 := b1, off := a1])"
      using 4 room by (simp add: encode_tail_def Let_def store_def defs)
    then show ?thesis by (simp only: t update2_write_at [OF room])
  next
    case 5
    then show ?thesis
      by (simp add: encode_tail_def tail_out_def write_at_Nil)
  qed
qed


lemma enc_len_step6:
  assumes "6 \<le> n"
  shows "enc_len pad n = 8 + enc_len pad (n - 6)"
proof -
  obtain m where n: "n = m + 6" using assms by (metis le_add_diff_inverse2)
  have "(m + 6) * 8 + 5 = (m * 8 + 5) + 8 * 6" by simp
  then have a: "((m + 6) * 8 + 5) div 6 = 8 + (m * 8 + 5) div 6"
    by (simp only: div_mult_self1 [of 6 "m * 8 + 5" 8, simplified])
  have "m + 6 + 2 = (m + 2) + 2 * 3" by simp
  then have b: "(m + 6 + 2) div 3 = 2 + (m + 2) div 3"
    by (simp only: div_mult_self1 [of 3 "m + 2" 2, simplified])
  show ?thesis
    unfolding n enc_len_def using a b by simp
qed

lemma enc_len_step3:
  assumes "3 \<le> n"
  shows "enc_len pad n = 4 + enc_len pad (n - 3)"
proof -
  obtain m where n: "n = m + 3" using assms by (metis le_add_diff_inverse2)
  have "(m + 3) * 8 + 5 = (m * 8 + 5) + 4 * 6" by simp
  then have a: "((m + 3) * 8 + 5) div 6 = 4 + (m * 8 + 5) div 6"
    by (simp only: div_mult_self1 [of 6 "m * 8 + 5" 4, simplified])
  have "m + 3 + 2 = (m + 2) + 1 * 3" by simp
  then have b: "(m + 3 + 2) div 3 = 1 + (m + 2) div 3"
    by (simp only: div_mult_self1 [of 3 "m + 2" 1, simplified])
  show ?thesis
    unfolding n enc_len_def using a b by simp
qed

lemma tail_out_length: "length src < 3 \<Longrightarrow> length (tail_out lk pad src) = enc_len pad (length src)"
proof -
  assume "length src < 3"
  then consider "length src = 0" | "length src = 1" | "length src = 2" by linarith
  then show ?thesis
    by cases (simp_all add: tail_out_def enc_len_def Let_def)
qed

lemma enc6_length:
  "length (enc6_out sw6 src) + enc_len pad (length (enc6_rest src)) = enc_len pad (length src)"
proof (induction sw6 src rule: enc6_out.induct)
  case (1 sw6 src)
  show ?case
  proof (cases "8 \<le> length src")
    case True
    then have "6 \<le> length src" by simp
    from enc_len_step6 [OF this, of pad] "1.IH" [OF True] True show ?thesis
      by (simp add: enc6_out.simps [of sw6 src] enc6_rest.simps [of src] le_bytes64_def)
  next
    case False
    then show ?thesis
      by (simp add: enc6_out.simps [of sw6 src] enc6_rest.simps [of src])
  qed
qed

lemma enc3_length:
  "length (enc3_out sw3 src) + length (tail_out lk pad (enc3_rest src)) = enc_len pad (length src)"
proof (induction sw3 src rule: enc3_out.induct)
  case (1 sw3 src)
  show ?case
  proof (cases "3 \<le> length src")
    case True
    from enc_len_step3 [OF True, of pad] "1.IH" [OF True] True show ?thesis
      by (simp add: enc3_out.simps [of sw3 src] enc3_rest.simps [of src] le_bytes32_def)
  next
    case False
    then show ?thesis
      by (simp add: enc3_out.simps [of sw3 src] enc3_rest.simps [of src] tail_out_length)
  qed
qed

lemma encoded_length: "length (encoded sw6 sw3 lk pad src) = enc_len pad (length src)"
  using enc6_length [of sw6 src pad] enc3_length [of sw3 "enc6_rest src" lk pad]
  by (simp add: encoded_def)

lemma encode_with_eq:
  assumes "enc_len pad (length src) \<le> length dst"
  shows "encode_with sw6 sw3 lk dst src pad = Some (write_at dst 0 (encoded sw6 sw3 lk pad src))"
proof (cases "length src = 0")
  case True
  then show ?thesis
    by (simp add: encode_with_def encoded_def enc6_out.simps [of sw6 "[]"] enc6_rest.simps [of "[]"]
        enc3_out.simps [of sw3 "[]"] enc3_rest.simps [of "[]"] tail_out_def write_at_Nil)
next
  case False
  define o6 r6 o3 r3 t where "o6 = enc6_out sw6 src" and "r6 = enc6_rest src"
    and "o3 = enc3_out sw3 r6" and "r3 = enc3_rest r6" and "t = tail_out lk pad r3"
  have total: "length o6 + length o3 + length t \<le> length dst"
    using assms encoded_length [of sw6 sw3 lk pad src]
    by (simp add: encoded_def o6_def r6_def o3_def r3_def t_def)
  have l6: "encode_loop6 sw6 dst 0 src = (write_at dst 0 o6, length o6, r6)"
    using total encode_loop6_eq [of 0 sw6 src dst] by (simp add: o6_def r6_def)
  have len6: "length (write_at dst 0 o6) = length dst"
    using total by (simp add: write_at_length)
  have l3: "encode_loop3 sw3 (write_at dst 0 o6) (length o6) r6 =
              Some (write_at dst 0 (o6 @ o3), length o6 + length o3, r3)"
    using total encode_loop3_eq [of "length o6" sw3 r6 "write_at dst 0 o6"]
      write_at_append [of 0 o6 o3 dst]
    by (simp add: len6 o3_def r3_def)
  have len3: "length (write_at dst 0 (o6 @ o3)) = length dst"
    using total by (simp add: write_at_length)
  have lt: "encode_tail lk pad (write_at dst 0 (o6 @ o3)) (length o6 + length o3) r3 =
              Some (write_at dst 0 ((o6 @ o3) @ t))"
    using total encode_tail_eq [of "length o6 + length o3" lk pad r3 "write_at dst 0 (o6 @ o3)"]
      write_at_append [of 0 "o6 @ o3" t dst]
    by (simp add: len3 t_def)
  have "encoded sw6 sw3 lk pad src = (o6 @ o3) @ t"
    by (simp add: encoded_def o6_def r6_def o3_def r3_def t_def)
  with False l6 l3 lt show ?thesis
    by (simp add: encode_with_def)
qed

lemma Encoding_Encode_eq:
  assumes e: "encode e = encode_with sw6 sw3 lk"
    and room: "Encoding_EncodedLen e (length s) \<le> length dst"
  shows "Encoding_Encode e dst s =
           Some (encoded sw6 sw3 lk (padChar e) s @ drop (Encoding_EncodedLen e (length s)) dst)"
proof -
  have "Encoding_EncodedLen e (length s) = enc_len (padChar e) (length s)"
    by (simp add: Encoding_EncodedLen_def enc_len_def)
  with room encode_with_eq [of "padChar e" s dst sw6 sw3 lk]
  show ?thesis
    by (simp add: Encoding_Encode_def e write_at_def encoded_length)
qed

text \<open>
  C7. For every byte string \<open>s\<close> and each of the four canonical encodings,
  \<open>Encode\<close> writes exactly \<open>EncodedLen(len(s))\<close> bytes: there are that many bytes
  \<open>out\<close>, fixed by \<open>s\<close>, such that for every destination with that much room the first
  \<open>EncodedLen(len(s))\<close> bytes become \<open>out\<close> and the rest stays as it was.
  \<open>EncodedLen(n)\<close> is \<open>(n + 2) / 3 * 4\<close> with padding and \<open>(8 n + 5) / 6\<close> without.
\<close>

theorem Encode_writes_EncodedLen:
  assumes "e = StdEncoding \<or> e = RawStdEncoding \<or> e = URLEncoding \<or> e = RawURLEncoding"
  shows "(\<exists>out. length out = Encoding_EncodedLen e (length s) \<and>
            (\<forall>dst. Encoding_EncodedLen e (length s) \<le> length dst \<longrightarrow>
               Encoding_Encode e dst s =
                 Some (out @ drop (Encoding_EncodedLen e (length s)) dst))) \<and>
         Encoding_EncodedLen e (length s) =
           (if e = RawStdEncoding \<or> e = RawURLEncoding then (8 * length s + 5) div 6
            else (length s + 2) div 3 * 4)"
proof -
  obtain sw6 sw3 lk where enc: "encode e = encode_with sw6 sw3 lk"
    using assms
    by (auto simp: StdEncoding_def RawStdEncoding_def URLEncoding_def RawURLEncoding_def
        stdEncode_def urlEncode_def)
  let ?out = "encoded sw6 sw3 lk (padChar e) s"
  have "length ?out = Encoding_EncodedLen e (length s)"
    by (simp add: encoded_length Encoding_EncodedLen_def enc_len_def)
  moreover have "\<forall>dst. Encoding_EncodedLen e (length s) \<le> length dst \<longrightarrow>
               Encoding_Encode e dst s =
                 Some (?out @ drop (Encoding_EncodedLen e (length s)) dst)"
    using Encoding_Encode_eq [OF enc] by blast
  moreover have "Encoding_EncodedLen e (length s) =
           (if e = RawStdEncoding \<or> e = RawURLEncoding then (8 * length s + 5) div 6
            else (length s + 2) div 3 * 4)"
    using assms
    by (auto simp: Encoding_EncodedLen_def StdEncoding_def RawStdEncoding_def URLEncoding_def
        RawURLEncoding_def NoPadding_def StdPadding_def mult.commute)
  ultimately show ?thesis by blast
qed

theorem Encode_writes_EncodedLen_witness:
  "(\<exists>out. length out = 8 \<and>
      (\<forall>dst. 8 \<le> length dst \<longrightarrow>
         Encoding_Encode StdEncoding dst (bytes ''hello'') = Some (out @ drop 8 dst))) \<and>
   Encoding_EncodedLen StdEncoding 5 = 8"
proof -
  have "Encoding_EncodedLen StdEncoding (length (bytes ''hello'')) = 8"
    by (simp add: Encoding_EncodedLen_def StdEncoding_def StdPadding_def NoPadding_def bytes_def)
  moreover have "length (bytes ''hello'') = 5" by (simp add: bytes_def)
  ultimately show ?thesis
    using Encode_writes_EncodedLen [of StdEncoding "bytes ''hello''"] by simp
qed

section \<open>Base64 decoding: the returned count\<close>

lemma drop_mono_eq: "drop a xs = drop a ys \<Longrightarrow> a \<le> b \<Longrightarrow> drop b xs = drop b ys"
  by (metis drop_drop le_add_diff_inverse2)

lemma BigEndian_PutUint64_frame:
  "length (BigEndian_PutUint64 dst n c) = length dst"
  "drop (n + 8) (BigEndian_PutUint64 dst n c) = drop (n + 8) dst"
  by (simp_all add: BigEndian_PutUint64_def drop_update_cancel)

lemma BigEndian_PutUint32_frame:
  "length (BigEndian_PutUint32 dst n c) = length dst"
  "drop (n + 4) (BigEndian_PutUint32 dst n c) = drop (n + 4) dst"
  by (simp_all add: BigEndian_PutUint32_def drop_update_cancel)

lemma decode_loop8_frame:
  "decode_loop8 rl dst n src fl = (d', n', src', fl') \<Longrightarrow>
   length d' = length dst \<and> drop (n' + 2) d' = drop (n' + 2) dst \<and>
   (\<exists>k. length src = length src' + 4 * k \<and> n' = n + 3 * k)"
proof (induction rl dst n src fl arbitrary: d' n' src' fl' rule: decode_loop8.induct)
  case (1 rl dst n src fl)
  show ?case
  proof (cases "8 \<le> length src \<and> 8 \<le> int (length dst) - int n")
    case True
    define c0 c1 c2 c3 c4 c5 c6 c7 where "c0 = rl (ucast (src ! 0))" and "c1 = rl (ucast (src ! 1))"
      and "c2 = rl (ucast (src ! 2))" and "c3 = rl (ucast (src ! 3))"
      and "c4 = rl (ucast (src ! 4))" and "c5 = rl (ucast (src ! 5))"
      and "c6 = rl (ucast (src ! 6))" and "c7 = rl (ucast (src ! 7))"
    note cs = c0_def c1_def c2_def c3_def c4_def c5_def c6_def c7_def
    define c where "c = push_bit 58 (ucast c0 :: uint64) OR push_bit 52 (ucast c1) OR
                    push_bit 46 (ucast c2) OR push_bit 40 (ucast c3) OR
                    push_bit 34 (ucast c4) OR push_bit 28 (ucast c5) OR
                    push_bit 22 (ucast c6) OR push_bit 16 (ucast c7)"
    let ?d = "BigEndian_PutUint64 dst n c"
    let ?fl = "fl OR (c0 OR c1 OR c2 OR c3 OR c4 OR c5 OR c6 OR c7)"
    have step: "decode_loop8 rl dst n src fl = decode_loop8 rl ?d (n + 6) (drop 8 src) ?fl"
      using True by (subst decode_loop8.simps) (simp add: Let_def cs c_def)
    with "1.prems" have r: "decode_loop8 rl ?d (n + 6) (drop 8 src) ?fl = (d', n', src', fl')"
      by simp
    from "1.IH" [OF True cs c_def r]
    obtain k where l: "length d' = length ?d" and dr: "drop (n' + 2) d' = drop (n' + 2) ?d"
      and k: "length (drop 8 src) = length src' + 4 * k" "n' = n + 6 + 3 * k"
      by blast
    have "n + 8 \<le> n' + 2" using k by simp
    with BigEndian_PutUint64_frame(2) [of n dst c]
    have "drop (n' + 2) ?d = drop (n' + 2) dst" by (rule drop_mono_eq)
    moreover have "\<exists>k'. length src = length src' + 4 * k' \<and> n' = n + 3 * k'"
      using k True by (intro exI [of _ "k + 2"]) auto
    ultimately show ?thesis
      using l dr by (simp add: BigEndian_PutUint64_frame(1))
  next
    case False
    with "1.prems" show ?thesis
      by (subst (asm) decode_loop8.simps) auto
  qed
qed


lemma decode_loop4_frame:
  "decode_loop4 rl dst n src fl = (d', n', src', fl') \<Longrightarrow>
   length d' = length dst \<and> drop (n' + 2) d' = drop (n' + 2) dst \<and>
   (\<exists>k. length src = length src' + 4 * k \<and> n' = n + 3 * k)"
proof (induction rl dst n src fl arbitrary: d' n' src' fl' rule: decode_loop4.induct)
  case (1 rl dst n src fl)
  show ?case
  proof (cases "4 \<le> length src \<and> 4 \<le> int (length dst) - int n")
    case True
    define c0 c1 c2 c3 where "c0 = rl (ucast (src ! 0))" and "c1 = rl (ucast (src ! 1))"
      and "c2 = rl (ucast (src ! 2))" and "c3 = rl (ucast (src ! 3))"
    note cs = c0_def c1_def c2_def c3_def
    define c where "c = push_bit 26 (ucast c0 :: uint32) OR push_bit 20 (ucast c1) OR
                    push_bit 14 (ucast c2) OR push_bit 8 (ucast c3)"
    let ?d = "BigEndian_PutUint32 dst n c"
    let ?fl = "fl OR (c0 OR c1 OR c2 OR c3)"
    have step: "decode_loop4 rl dst n src fl = decode_loop4 rl ?d (n + 3) (drop 4 src) ?fl"
      using True by (subst decode_loop4.simps) (simp add: Let_def cs c_def)
    with "1.prems" have r: "decode_loop4 rl ?d (n + 3) (drop 4 src) ?fl = (d', n', src', fl')"
      by simp
    from "1.IH" [OF True cs c_def r]
    obtain k where l: "length d' = length ?d" and dr: "drop (n' + 2) d' = drop (n' + 2) ?d"
      and k: "length (drop 4 src) = length src' + 4 * k" "n' = n + 3 + 3 * k"
      by blast
    have "n + 4 \<le> n' + 2" using k by simp
    with BigEndian_PutUint32_frame(2) [of n dst c]
    have "drop (n' + 2) ?d = drop (n' + 2) dst" by (rule drop_mono_eq)
    moreover have "\<exists>k'. length src = length src' + 4 * k' \<and> n' = n + 3 * k'"
      using k True by (intro exI [of _ "k + 1"]) auto
    ultimately show ?thesis
      using l dr by (simp add: BigEndian_PutUint32_frame(1))
  next
    case False
    with "1.prems" show ?thesis
      by (subst (asm) decode_loop4.simps) auto
  qed
qed

lemma div4_geq: "4 \<le> l \<Longrightarrow> l div 4 = Suc ((l - 4) div 4)" for l :: nat
  by (simp add: le_div_geq)

lemma mod4_geq: "4 \<le> l \<Longrightarrow> l mod 4 = (l - 4) mod 4" for l :: nat
  by (simp add: le_mod_geq)

lemma decode_loop4s_frame:
  "n + 3 * (length src div 4) \<le> length dst \<Longrightarrow>
   \<exists>d' src' fl'.
     decode_loop4s rl dst n src fl = Some (d', n + 3 * (length src div 4), src', fl') \<and>
     length d' = length dst \<and>
     drop (n + 3 * (length src div 4)) d' = drop (n + 3 * (length src div 4)) dst \<and>
     length src' = length src mod 4"
proof (induction "length src" arbitrary: dst n src fl rule: less_induct)
  case less
  show ?case
  proof (cases "4 \<le> length src")
    case True
    define c0 c1 c2 c3 where "c0 = rl (ucast (src ! 0))" and "c1 = rl (ucast (src ! 1))"
      and "c2 = rl (ucast (src ! 2))" and "c3 = rl (ucast (src ! 3))"
    note cs = c0_def c1_def c2_def c3_def
    define d where "d = dst[n := push_bit 2 c0 OR drop_bit 4 c1,
                           n + 1 := push_bit 4 c1 OR drop_bit 2 c2,
                           n + 2 := push_bit 6 c2 OR c3]"
    let ?fl = "fl OR (c0 OR c1 OR c2 OR c3)"
    let ?q = "(length src - 4) div 4"
    have q: "length src div 4 = Suc ?q" using True by (rule div4_geq)
    have room3: "n + 3 \<le> length dst" using less.prems q by simp
    have ld: "length d = length dst" by (simp add: d_def)
    have dd: "drop (n + 3) d = drop (n + 3) dst" by (simp add: d_def drop_update_cancel)
    have step: "decode_loop4s rl dst n src fl = decode_loop4s rl d (n + 3) (drop 4 src) ?fl"
      using True room3
      by (subst decode_loop4s.simps) (simp add: Let_def cs d_def store_def)
    have "length (drop 4 src) < length src" using True by simp
    moreover have "n + 3 + 3 * (length (drop 4 src) div 4) \<le> length d"
      using less.prems q by (simp add: ld)
    ultimately obtain d' src' fl' where
      r: "decode_loop4s rl d (n + 3) (drop 4 src) ?fl =
            Some (d', n + 3 + 3 * (length (drop 4 src) div 4), src', fl')"
      and l: "length d' = length d"
      and dr: "drop (n + 3 + 3 * (length (drop 4 src) div 4)) d' =
               drop (n + 3 + 3 * (length (drop 4 src) div 4)) d"
      and m: "length src' = length (drop 4 src) mod 4"
      using less.hyps [of "drop 4 src" "n + 3" d ?fl] by blast
    have e: "n + 3 + 3 * (length (drop 4 src) div 4) = n + 3 * (length src div 4)"
      using q by simp
    have "drop (n + 3 * (length src div 4)) d = drop (n + 3 * (length src div 4)) dst"
      using dd by (rule drop_mono_eq) (simp add: q)
    with r l dr m show ?thesis
      unfolding step e using mod4_geq [OF True] by (simp add: ld)
  next
    case False
    then have "length src div 4 = 0" by simp
    with False show ?thesis
      by (subst decode_loop4s.simps) simp
  qed
qed

lemma decode_tail_frame:
  assumes "length src < 4" and "n + tail_count (length src) \<le> length dst"
  shows "\<exists>d' fl'. decode_tail rl st dst n src fl = Some (d', n + tail_count (length src), fl') \<and>
           length d' = length dst \<and>
           drop (n + tail_count (length src)) d' = drop (n + tail_count (length src)) dst"
proof -
  from assms(1) consider "length src = 3" | "length src = 2" | "length src = 0" | "length src = 1"
    by linarith
  then show ?thesis
  proof cases
    case 1
    with assms(2) have "n + 2 \<le> length dst" by (simp add: tail_count_def)
    with 1 show ?thesis
      by (simp add: decode_tail_def tail_count_def Let_def store_def drop_update_cancel)
  next
    case 2
    with assms(2) have "n + 1 \<le> length dst" by (simp add: tail_count_def)
    with 2 show ?thesis
      by (simp add: decode_tail_def tail_count_def Let_def store_def drop_update_cancel)
  next
    case 3
    then show ?thesis by (simp add: decode_tail_def tail_count_def)
  next
    case 4
    then show ?thesis by (simp add: decode_tail_def tail_count_def)
  qed
qed


lemma pad_count_eq:
  "pad \<noteq> NoPadding \<Longrightarrow>
   unat (ConstantTimeByteEq (src ! (length src - 1)) (ucast pad) +
         ConstantTimeByteEq (src ! (length src - 2)) (ucast pad)) = pad_count pad src"
  by (simp add: ConstantTimeByteEq_eq pad_count_def)

lemma group_count_split:
  assumes "l = r + 4 * k"
  shows "group_count l = 3 * k + group_count r"
proof -
  have "(r + 4 * k) div 4 = k + r div 4" by simp
  moreover have "(r + 4 * k) mod 4 = r mod 4" by simp
  ultimately show ?thesis unfolding assms group_count_def by (simp add: algebra_simps)
qed

lemma decode_body_count:
  assumes room: "group_count (length src - pad_count pad src) \<le> length dst"
  shows "\<exists>d' err. decode_body rl dst src pad st =
             Some (d', group_count (length src - pad_count pad src), err) \<and>
           length d' = length dst \<and>
           drop (group_count (length src - pad_count pad src) + 2) d' =
             drop (group_count (length src - pad_count pad src) + 2) dst"
proof -
  define s0 where "s0 = (if pad \<noteq> NoPadding
                 then (let t = ConstantTimeByteEq (src ! (length src - 1)) (ucast pad) +
                               ConstantTimeByteEq (src ! (length src - 2)) (ucast pad)
                       in take (length src - unat t) src)
                 else src)"
  define g where "g = group_count (length src - pad_count pad src)"
  have l0: "length s0 = length src - pad_count pad src"
  proof (cases "pad = NoPadding")
    case True
    then show ?thesis by (simp add: s0_def pad_count_def)
  next
    case False
    then have "s0 = take (length src - pad_count pad src) src"
      unfolding s0_def Let_def using False by (subst pad_count_eq [OF False]) simp
    then show ?thesis by simp
  qed
  obtain d1 n1 s1 f1 where r1: "decode_loop8 rl dst 0 s0 0 = (d1, n1, s1, f1)"
    by (metis prod_cases4)
  from decode_loop8_frame [OF r1] obtain k1 where
    l1: "length d1 = length dst" and dr1: "drop (n1 + 2) d1 = drop (n1 + 2) dst"
    and k1: "length s0 = length s1 + 4 * k1" "n1 = 3 * k1" by auto
  obtain d2 n2 s2 f2 where r2: "decode_loop4 rl d1 n1 s1 f1 = (d2, n2, s2, f2)"
    by (metis prod_cases4)
  from decode_loop4_frame [OF r2] obtain k2 where
    l2: "length d2 = length d1" and dr2: "drop (n2 + 2) d2 = drop (n2 + 2) d1"
    and k2: "length s1 = length s2 + 4 * k2" "n2 = n1 + 3 * k2" by auto
  have "length s0 = length s2 + 4 * (k1 + k2)" using k1 k2 by simp
  from group_count_split [OF this] have g2: "g = n2 + group_count (length s2)"
    using k1 k2 by (simp add: g_def l0)
  let ?n3 = "n2 + 3 * (length s2 div 4)"
  have g3: "g = ?n3 + tail_count (length s2 mod 4)"
    using g2 by (simp add: group_count_def)
  have "?n3 \<le> length d2" using room g3 by (simp add: l1 l2 g_def)
  from decode_loop4s_frame [OF this] obtain d3 s3 f3 where
    r3: "decode_loop4s rl d2 n2 s2 f2 = Some (d3, ?n3, s3, f3)"
    and l3: "length d3 = length d2" and dr3: "drop ?n3 d3 = drop ?n3 d2"
    and m3: "length s3 = length s2 mod 4" by blast
  have s3: "length s3 < 4" using m3 by simp
  have g4: "g = ?n3 + tail_count (length s3)" using g3 m3 by simp
  then have "?n3 + tail_count (length s3) \<le> length d3"
    using room by (simp add: l1 l2 l3 g_def)
  from decode_tail_frame [OF s3 this, of rl st f3] obtain d4 f4 where
    r4: "decode_tail rl st d3 ?n3 s3 f3 = Some (d4, g, f4)"
    and l4: "length d4 = length d3" and dr4: "drop g d4 = drop g d3"
    unfolding g4 [symmetric] by blast
  have "n1 + 2 \<le> g + 2" "n2 + 2 \<le> g + 2" "?n3 \<le> g + 2" "g \<le> g + 2"
    using k2 g2 g3 by simp_all
  with dr1 dr2 dr3 dr4 have "drop (g + 2) d4 = drop (g + 2) dst"
    by (metis drop_mono_eq)
  moreover have "decode_body rl dst src pad st =
      Some (d4, g, if f4 AND 0xff = 0xff then Some ErrCorrupt else None)"
    unfolding decode_body_def s0_def [symmetric] by (simp add: r1 r2 r3 r4)
  ultimately show ?thesis
    unfolding g_def [symmetric] using l1 l2 l3 l4 by simp
qed

lemma decode_with_count:
  assumes "decoded_count pad src \<le> length dst"
  shows "\<exists>d' err. decode_with rl dst src pad st = Some (d', decoded_count pad src, err) \<and>
           length d' = length dst \<and>
           drop (decoded_count pad src + 2) d' = drop (decoded_count pad src + 2) dst"
proof -
  consider "length src = 0"
    | "length src \<noteq> 0" "length src mod 4 = 0"
    | "length src mod 4 = 2 \<or> length src mod 4 = 3" "pad \<noteq> NoPadding"
    | "length src mod 4 = 2 \<or> length src mod 4 = 3" "pad = NoPadding"
    | "length src mod 4 \<noteq> 0" "length src mod 4 \<noteq> 2" "length src mod 4 \<noteq> 3"
    by blast
  then show ?thesis
  proof cases
    case 1
    then show ?thesis by (simp add: decode_with_def decoded_count_def)
  next
    case 2
    then have c: "decoded_count pad src = group_count (length src - pad_count pad src)"
      by (simp add: decoded_count_def)
    from 2 have "decode_with rl dst src pad st = decode_body rl dst src pad st"
      by (simp add: decode_with_def)
    with decode_body_count [of src pad dst rl st] assms show ?thesis
      by (simp add: c)
  next
    case 3
    then have "length src \<noteq> 0" by auto
    with 3 show ?thesis by (auto simp: decode_with_def decoded_count_def)
  next
    case 4
    then have n0: "length src \<noteq> 0" "length src mod 4 \<noteq> 0" by auto
    with 4 have c: "decoded_count pad src = group_count (length src - pad_count pad src)"
      by (auto simp: decoded_count_def pad_count_def)
    from 4 n0 have "decode_with rl dst src pad st = decode_body rl dst src pad st"
      by (auto simp: decode_with_def)
    with decode_body_count [of src pad dst rl st] assms show ?thesis
      by (simp add: c)
  next
    case 5
    then have "length src \<noteq> 0" by auto
    with 5 show ?thesis by (auto simp: decode_with_def decoded_count_def)
  qed
qed

text \<open>
  C4. \<open>Decode\<close> is to return the total number of bytes it wrote to \<open>dst\<close>, and to write
  at most \<open>DecodedLen(len(src))\<close> bytes. It does not: with the unpadded standard
  encoding, \<open>"AAAAAAAA"\<close> and a destination of eight bytes 0xAA, \<open>Decode\<close> returns 6,
  which is \<open>DecodedLen(8)\<close>, and has written eight bytes, all eight bytes of the
  destination being zero afterwards. The first bulk loop stores eight bytes for
  eight characters and counts six. Into a destination of six bytes, where that loop
  is not entered, the same input gives the same six bytes and the same count.
\<close>

theorem Decode_stores_beyond_n:
  "Encoding_Decode RawStdEncoding (replicate 8 0xAA) (bytes ''AAAAAAAA'') =
     Some ([0, 0, 0, 0, 0, 0, 0, 0], 6, None) \<and>
   Encoding_DecodedLen RawStdEncoding 8 = 6 \<and>
   Encoding_Decode RawStdEncoding (replicate 6 0xAA) (bytes ''AAAAAAAA'') =
     Some ([0, 0, 0, 0, 0, 0], 6, None)"
  by code_simp

text \<open>
  What does hold of the number returned, for every \<open>src\<close> and every \<open>dst\<close> with room
  for the decoded bytes: it is the number of bytes that \<open>src\<close> decodes to, three for
  every four characters and two or one for a tail of three or two, whether or not
  \<open>ErrCorrupt\<close> is returned with it; the length of \<open>dst\<close> is kept and the bytes written
  beyond that number are at most two, every byte from index \<open>n + 2\<close> on being left as
  it was. \<open>StdDecode\<close> of \<open>"aGVsb?8="\<close> returns 5 and \<open>ErrCorrupt\<close>.
\<close>

theorem Decode_count:
  assumes "decode e = stdDecode \<or> decode e = urlDecode"
    and "decoded_count (padChar e) src \<le> length dst"
  shows "(\<exists>d' err. Encoding_Decode e dst src = Some (d', decoded_count (padChar e) src, err) \<and>
            length d' = length dst \<and>
            drop (decoded_count (padChar e) src + 2) d' =
              drop (decoded_count (padChar e) src + 2) dst) \<and>
         Encoding_Decode StdEncoding (replicate 8 0) (bytes ''aGVsb?8='') =
           Some ([0x68, 0x65, 0x6C, 0x6F, 0xFF, 0, 0, 0], 5, Some ErrCorrupt)"
proof -
  obtain rl where "decode e = decode_with rl"
    using assms(1) by (auto simp: stdDecode_def urlDecode_def)
  with decode_with_count [OF assms(2), of rl "strict e"]
  have "\<exists>d' err. Encoding_Decode e dst src = Some (d', decoded_count (padChar e) src, err) \<and>
            length d' = length dst \<and>
            drop (decoded_count (padChar e) src + 2) d' =
              drop (decoded_count (padChar e) src + 2) dst"
    by (simp add: Encoding_Decode_def)
  moreover have "Encoding_Decode StdEncoding (replicate 8 0) (bytes ''aGVsb?8='') =
           Some ([0x68, 0x65, 0x6C, 0x6F, 0xFF, 0, 0, 0], 5, Some ErrCorrupt)"
    by code_simp
  ultimately show ?thesis by blast
qed

theorem Decode_count_witness:
  "(\<exists>d' err. Encoding_Decode StdEncoding (replicate 8 0) (bytes ''aGVsb?8='') = Some (d', 5, err) \<and>
      length d' = 8 \<and> drop 7 d' = [0]) \<and>
   Encoding_Decode StdEncoding (replicate 8 0) (bytes ''aGVsb?8='') =
     Some ([0x68, 0x65, 0x6C, 0x6F, 0xFF, 0, 0, 0], 5, Some ErrCorrupt)"
proof -
  have a: "decode StdEncoding = stdDecode \<or> decode StdEncoding = urlDecode"
    by (simp add: StdEncoding_def)
  have c: "decoded_count (padChar StdEncoding) (bytes ''aGVsb?8='') = 5"
    by (simp add: decoded_count_def pad_count_def group_count_def tail_count_def
        StdEncoding_def StdPadding_def NoPadding_def bytes_def)
  then have b: "decoded_count (padChar StdEncoding) (bytes ''aGVsb?8='') \<le> length (replicate 8 0 :: byte list)"
    by simp
  show ?thesis
    using Decode_count [OF a b] by (simp add: c)
qed

section \<open>Base64: the lookups against the alphabets\<close>

text \<open>
  The forward lookups produce the two alphabets, and \<open>stdRevLookup\<close> inverts the
  standard one on every byte. \<open>urlRevLookup\<close> computes the values of the standard
  alphabet as well, not those of the URL alphabet.
\<close>

lemma stdLookup_table:
  "\<forall>n \<in> set [0..<64]. stdLookup (of_nat n) = stdTable ! n \<and> std_value (stdTable ! n) = of_nat n"
  by code_simp

lemma urlLookup_table:
  "\<forall>n \<in> set [0..<64]. urlLookup (of_nat n) = urlTable ! n \<and> url_value (urlTable ! n) = of_nat n"
  by code_simp

lemma stdRevLookup_value: "\<forall>c::byte. stdRevLookup (ucast c) = std_value c"
  unfolding byte_exhaust by code_simp

lemma urlRevLookup_value: "\<forall>c::byte. urlRevLookup (ucast c) = std_value c"
  unfolding byte_exhaust by code_simp

section \<open>Hex: decoding inverts encoding\<close>

lemma hex_digit_valid:
  "\<forall>v::byte. is_hex_digit (hex_digit (drop_bit 4 v)) \<and> is_hex_digit (hex_digit (v AND 0x0f)) \<and>
     hex_val (hex_digit (drop_bit 4 v)) * 16 OR hex_val (hex_digit (v AND 0x0f)) = v"
  unfolding byte_exhaust by code_simp

lemma hex_text_length: "length (hex_text s) = 2 * length s"
  by (induction s) (simp_all add: hex_text_def)

lemma hex_text_Cons: "hex_text (v # s) = hex_digit (drop_bit 4 v) # hex_digit (v AND 0x0f) # hex_text s"
  by (simp add: hex_text_def)

lemma hex_text_nth:
  "k < length s \<Longrightarrow>
   hex_text s ! (2 * k) = hex_digit (drop_bit 4 (s ! k)) \<and>
   hex_text s ! (2 * k + 1) = hex_digit (s ! k AND 0x0f)"
proof (induction s arbitrary: k)
  case Nil
  then show ?case by simp
next
  case (Cons v s)
  show ?case
  proof (cases k)
    case 0
    then show ?thesis by (simp add: hex_text_Cons)
  next
    case (Suc k')
    with Cons.prems have "k' < length s" by simp
    from Cons.IH [OF this] Suc show ?thesis by (simp add: hex_text_Cons)
  qed
qed

lemma first_invalid_hex_text: "first_invalid (hex_text s) = None"
  using hex_digit_valid by (induction s) (simp_all add: hex_text_Cons hex_text_def)

lemma hex_out_hex_text: "k < length s \<Longrightarrow> hex_out (hex_text s) k = s ! k"
  using hex_text_nth [of k s] hex_digit_valid by (simp add: hex_out_def)

lemma hex_DecodeString_eq:
  assumes small: "length s < 2 ^ 63"
  shows "hex_DecodeString s = Some (map (hex_out s) [0..<hex_count s], hex_error s)"
proof -
  let ?src = "\<lparr>ptr = 0, len = length s\<rparr>"
  let ?q = "hex_count s"
  have q: "?q \<le> length s div 2" by (rule hex_count_le)
  then have "?q < 2 ^ 63" using small by simp
  then have sq: "sint (of_nat ?q :: gint) = int ?q" by (rule sint_of_nat_small)
  have sb1: "src_bytes s ?src = s" by (simp add: src_bytes_def)
  have "Decode_pre s ?src ?src" using small by (simp add: Decode_pre_def)
  from hex_Decode_full [OF this] obtain m1
    where d1: "hex_Decode s ?src ?src = Some (m1, of_nat ?q, hex_error s)"
      and l1: "length m1 = length s"
      and c1: "\<forall>a < length s. m1 ! a = (if a < length s div 2 then hex_out s a else s ! a)"
    by (auto simp: sb1)
  have t1: "take ?q m1 = map (hex_out s) [0..<?q]"
    using q l1 c1 by (intro nth_equalityI) auto
  show ?thesis using q by (simp add: hex_DecodeString_def d1 sq t1)
qed

text \<open>
  For package \<open>hex\<close> decoding inverts encoding: the text of \<open>EncodeToString(s)\<close>
  decodes to \<open>s\<close> with no error.
\<close>

lemma hex_roundtrip:
  assumes "2 * length s < 2 ^ 63"
  shows "hex_EncodeToString s = Some (hex_text s) \<and> hex_DecodeString (hex_text s) = Some (s, None)"
proof -
  have "hex_Encode_loop (replicate (2 * length s) 0) 0 s =
          Some (take 0 (replicate (2 * length s) 0) @ hex_text s @
                drop (0 + 2 * length s) (replicate (2 * length s) 0))"
    by (rule hex_Encode_loop_eq) simp
  then have enc: "hex_EncodeToString s = Some (hex_text s)"
    by (simp add: hex_EncodeToString_def hex_Encode_def hex_EncodedLen_def mult.commute)
  have c: "hex_count (hex_text s) = length s"
    by (simp add: hex_count_def first_invalid_hex_text hex_text_length)
  have e: "hex_error (hex_text s) = None"
    by (simp add: hex_error_def first_invalid_hex_text hex_text_length)
  have "map (hex_out (hex_text s)) [0..<length s] = s"
    by (intro nth_equalityI) (simp_all add: hex_out_hex_text)
  with hex_DecodeString_eq [of "hex_text s"] assms
  have "hex_DecodeString (hex_text s) = Some (s, None)"
    by (simp add: c e hex_text_length)
  with enc show ?thesis by simp
qed

end
